theory Spec2Isabelle
  imports Main "HOL-Library.Word"
begin

text \<open>
  A shallow embedding of the TypeScript library \<^verbatim>\<open>sol-ecdsa-signatures\<close>: the scalar
  arithmetic of \<^verbatim>\<open>utils.ts\<close>, the class \<^verbatim>\<open>Secp256k1EcdsaSignature\<close> with signing, verification
  and normalisation, and the properties its specification states about them. Function
  names are the source's. The big numbers and the curve points come from the packages
  \<^verbatim>\<open>bn.js\<close> and \<^verbatim>\<open>elliptic\<close>; each of their operations used here is described where it is
  introduced.
\<close>

section \<open>Errors and exceptional control flow\<close>

text \<open>
  The error codes of \<^verbatim>\<open>errors.ts\<close>. A thrown JavaScript value is either the library's own
  \<^verbatim>\<open>Secp256k1EcdsaException\<close> carrying one of these codes, or an error raised by the
  runtime or by a dependency (\<^verbatim>\<open>Error\<close> with its message, \<^verbatim>\<open>TypeError\<close> for a method
  call on \<^verbatim>\<open>null\<close>, \<^verbatim>\<open>RangeError\<close> for a typed-array write out of bounds).
  A function that can throw returns \<open>js_error + 'a\<close>, with \<open>Inl\<close> for the thrown value.
\<close>

datatype Secp256k1EcdsaError =
  InvalidSecretKey | InvalidPublicKey | InvalidRecoveryId | InvalidSignature
  | InvalidNonce | ArithmeticOverflow

datatype js_error =
  Secp256k1EcdsaException Secp256k1EcdsaError
  | Error string
  | TypeError
  | RangeError

definition try_catch :: "(js_error + 'a) \<Rightarrow> (js_error \<Rightarrow> js_error + 'a) \<Rightarrow> js_error + 'a" where
  "try_catch body handler = (case body of Inl error \<Rightarrow> handler error | Inr v \<Rightarrow> Inr v)"

definition and_then :: "(js_error + 'a) \<Rightarrow> ('a \<Rightarrow> js_error + 'b) \<Rightarrow> js_error + 'b" where
  "and_then m f = (case m of Inl error \<Rightarrow> Inl error | Inr v \<Rightarrow> f v)"

section \<open>Byte arrays and big numbers\<close>

text \<open>
  A \<^verbatim>\<open>Uint8Array\<close> is a list of 8-bit words. A big number of \<^verbatim>\<open>bn.js\<close> is an \<open>int\<close>;
  every big number this program builds is non-negative. \<open>bytes_to_bn\<close> is
  \<^verbatim>\<open>new BN(Buffer.from(bytes).toString('hex'), 16)\<close>: the bytes read as one big-endian
  unsigned number (the empty string gives 0).
\<close>

type_synonym byte = "8 word"

definition bytes_to_bn :: "byte list \<Rightarrow> int" where
  "bytes_to_bn bytes = foldl (\<lambda>acc b. acc * 256 + uint b) 0 bytes"

text \<open>\<^verbatim>\<open>a.umod(m)\<close> is the non-negative remainder; \<^verbatim>\<open>a.mod(m)\<close> takes the sign of \<open>a\<close>.\<close>

definition bn_umod :: "int \<Rightarrow> int \<Rightarrow> int" where
  "bn_umod a m = a mod m"

definition bn_mod :: "int \<Rightarrow> int \<Rightarrow> int" where
  "bn_mod a m = (if 0 \<le> a then a mod m else - ((- a) mod m))"

text \<open>
  \<^verbatim>\<open>a.invm(m)\<close> is \<^verbatim>\<open>a.egcd(m).a.umod(m)\<close>: the coefficient of \<open>a\<close> in a B\'ezout identity
  \<open>a * x + m * y = gcd a m\<close>, reduced into \<open>[0, m)\<close>. It does not check that the inverse
  exists. For \<open>a = 0\<close> the loop of \<^verbatim>\<open>egcd\<close> is not entered and the coefficient is 0, so
  \<^verbatim>\<open>invm\<close> returns 0. For \<open>a\<close> coprime to \<open>m\<close> the result is the inverse of \<open>a\<close>, whatever
  the algorithm; the extended Euclidean algorithm below computes it. The operands this
  program passes lie in \<open>[0, n)\<close> with \<open>n\<close> the prime order of the curve, so no other case
  arises.
\<close>

function egcd :: "int \<Rightarrow> int \<Rightarrow> int \<times> int \<times> int" where
  "egcd a b =
     (if a \<le> 0 then (b, 0, 1)
      else (case egcd (b mod a) a of (g, x, y) \<Rightarrow> (g, y - (b div a) * x, x)))"
  by pat_completeness auto
termination
  by (relation "measure (\<lambda>(a, b). nat a)") (auto simp: pos_mod_bound)

declare egcd.simps [simp del]

definition bn_invm :: "int \<Rightarrow> int \<Rightarrow> int" where
  "bn_invm a m = bn_umod (fst (snd (egcd a m))) m"

text \<open>
  \<^verbatim>\<open>bn.toString(16)\<close> of a non-negative number: its hexadecimal digits, most significant
  first, \<^verbatim>\<open>"0"\<close> for zero. A digit is kept as its value, a number below 16.
\<close>

function toString16 :: "int \<Rightarrow> int list" where
  "toString16 n = (if n < 16 then [n] else toString16 (n div 16) @ [n mod 16])"
  by pat_completeness auto
termination
  by (relation "measure nat") auto

declare toString16.simps [simp del]

definition padStart :: "nat \<Rightarrow> 'a \<Rightarrow> 'a list \<Rightarrow> 'a list" where
  "padStart len c str = replicate (len - length str) c @ str"

definition substring :: "'a list \<Rightarrow> nat \<Rightarrow> nat \<Rightarrow> 'a list" where
  "substring str a b = take (b - a) (drop a str)"

definition parseInt16 :: "int list \<Rightarrow> int" where
  "parseInt16 digits = foldl (\<lambda>acc d. acc * 16 + d) 0 digits"

text \<open>
  \<^verbatim>\<open>bnToBytes\<close>: \<^verbatim>\<open>undefined\<close> and \<^verbatim>\<open>null\<close> (here \<open>None\<close>) are rejected; otherwise the
  number is printed in hexadecimal, padded on the left to 64 digits, and the first 64
  digits are read back two at a time into a fresh 32-byte array (\<open>bn_hex_bytes\<close>).
\<close>

definition bn_hex_bytes :: "int \<Rightarrow> byte list" where
  "bn_hex_bytes v =
     (let hex = padStart 64 0 (toString16 v)
      in map (\<lambda>i. of_int (parseInt16 (substring hex (i * 2) (i * 2 + 2)))) [0..<32])"

definition bnToBytes :: "int option \<Rightarrow> js_error + byte list" where
  "bnToBytes bn =
     (case bn of
        None \<Rightarrow> Inl (Error ''BN is undefined or null'')
      | Some v \<Rightarrow> Inr (bn_hex_bytes v))"

text \<open>\<^verbatim>\<open>bn.toArray('be', len)\<close>: the big-endian bytes of a number, zero-padded to \<open>len\<close>.\<close>

definition bn_toArray_be :: "nat \<Rightarrow> int \<Rightarrow> byte list" where
  "bn_toArray_be len v = map (\<lambda>i. of_int (v div 256 ^ (len - 1 - i))) [0..<len]"

section \<open>Scalar field arithmetic (class Curve)\<close>

text \<open>The order of the group of secp256k1, \<^verbatim>\<open>ec.n\<close>, and its half \<^verbatim>\<open>ec.n.shrn(1)\<close>.\<close>

definition Curve_N :: int where
  "Curve_N = 0xFFFFFFFFFFFFFFFFFFFFFFFFFFFFFFFEBAAEDCE6AF48A03BBFD25E8CD0364141"

definition Curve_N_DIV_2 :: int where
  "Curve_N_DIV_2 = Curve_N div 2"

text \<open>
  \<^verbatim>\<open>toScalar\<close>: \<^verbatim>\<open>ec.keyFromPrivate(hex, 'hex').getPrivate()\<close>. The key pair imports the
  private key as \<^verbatim>\<open>new BN(hex, 16).umod(ec.n)\<close>, for an operand of any length; only for
  the empty string (which is falsy) nothing is imported and \<^verbatim>\<open>getPrivate()\<close> is \<^verbatim>\<open>null\<close>.
\<close>

definition toScalar :: "byte list \<Rightarrow> int option" where
  "toScalar bytes = (if bytes = [] then None else Some (bn_umod (bytes_to_bn bytes) Curve_N))"

text \<open>
  The four operations. Each wraps its body in \<^verbatim>\<open>try { ... } catch (error) { console.error(...);
  throw error; }\<close>, which rethrows what it caught. A method call on a \<^verbatim>\<open>null\<close> scalar, or
  with a \<^verbatim>\<open>null\<close> argument, is a \<^verbatim>\<open>TypeError\<close>.
\<close>

definition modInvN :: "byte list \<Rightarrow> js_error + byte list" where
  "modInvN k =
     try_catch
       (case toScalar k of
          None \<Rightarrow> Inl TypeError
        | Some scalar \<Rightarrow> bnToBytes (Some (bn_invm scalar Curve_N)))
       (\<lambda>error. Inl error)"

definition mulModN :: "byte list \<Rightarrow> byte list \<Rightarrow> js_error + byte list" where
  "mulModN a b =
     try_catch
       (case toScalar a of
          None \<Rightarrow> Inl TypeError
        | Some aBN \<Rightarrow>
            (case toScalar b of
               None \<Rightarrow> Inl TypeError
             | Some bBN \<Rightarrow> bnToBytes (Some (bn_mod (aBN * bBN) Curve_N))))
       (\<lambda>error. Inl error)"

definition addModN :: "byte list \<Rightarrow> byte list \<Rightarrow> js_error + byte list" where
  "addModN a b =
     try_catch
       (case toScalar a of
          None \<Rightarrow> Inl TypeError
        | Some aBN \<Rightarrow>
            (case toScalar b of
               None \<Rightarrow> Inl TypeError
             | Some bBN \<Rightarrow> bnToBytes (Some (bn_mod (aBN + bBN) Curve_N))))
       (\<lambda>error. Inl error)"

definition negateN :: "byte list \<Rightarrow> js_error + byte list" where
  "negateN a =
     try_catch
       (case toScalar a of
          None \<Rightarrow> Inl TypeError
        | Some aBN \<Rightarrow> bnToBytes (Some (bn_mod (Curve_N - aBN) Curve_N)))
       (\<lambda>error. Inl error)"

section \<open>Curve points\<close>

text \<open>
  The curve arithmetic is the \<^verbatim>\<open>elliptic\<close> package's, reached through the module constant
  \<^verbatim>\<open>ec = new EC('secp256k1')\<close>. A point of the package is the point at infinity or an affine
  point whose \<^verbatim>\<open>getX()\<close> and \<^verbatim>\<open>getY()\<close> are big numbers. The operations of \<^verbatim>\<open>ec\<close> that this
  program calls are the fields of a record: \<^verbatim>\<open>ec.g.mul(k)\<close>, \<^verbatim>\<open>P.mul(k)\<close>, \<^verbatim>\<open>P.add(Q)\<close> and
  \<^verbatim>\<open>ec.curve.point(x, y)\<close>. The value \<open>secp256k1\<close> further down is the curve of the program.
\<close>

datatype point = Infinity | Point int int

record curve =
  g_mul :: "int \<Rightarrow> point"
  point_mul :: "point \<Rightarrow> int \<Rightarrow> point"
  point_add :: "point \<Rightarrow> point \<Rightarrow> point"
  curve_point :: "int \<Rightarrow> int \<Rightarrow> point"

text \<open>
  \<^verbatim>\<open>pointXToBytes\<close> and \<^verbatim>\<open>pointYToBytes\<close>: a point object always has the methods, so the
  guard passes; \<^verbatim>\<open>getX()\<close> of the point at infinity dereferences \<^verbatim>\<open>null\<close>.
\<close>

definition pointXToBytes :: "point \<Rightarrow> js_error + byte list" where
  "pointXToBytes pt =
     try_catch
       (case pt of Infinity \<Rightarrow> Inl TypeError | Point x y \<Rightarrow> bnToBytes (Some x))
       (\<lambda>error. Inl error)"

definition pointYToBytes :: "point \<Rightarrow> js_error + byte list" where
  "pointYToBytes pt =
     try_catch
       (case pt of Infinity \<Rightarrow> Inl TypeError | Point x y \<Rightarrow> bnToBytes (Some y))
       (\<lambda>error. Inl error)"

definition mulG :: "curve \<Rightarrow> byte list \<Rightarrow> js_error + byte list" where
  "mulG ec k =
     try_catch
       (case toScalar k of
          None \<Rightarrow> Inl TypeError
        | Some scalar \<Rightarrow> pointXToBytes (g_mul ec scalar))
       (\<lambda>error. Inl error)"

text \<open>
  \<^verbatim>\<open>ecMul\<close> takes a point of the package or an object with \<^verbatim>\<open>x\<close> and \<^verbatim>\<open>y\<close> byte arrays. Its
  result holds the two coordinates and a closure \<^verbatim>\<open>tweak\<close> over the product; the model
  returns the product itself as third component and \<open>tweak\<close> takes it as argument.
\<close>

datatype point_arg = EcPoint point | Coordinates "byte list" "byte list"

datatype mul_result = MulResult (x_bytes: "byte list") (y_bytes: "byte list") (product: point)

definition ecMul :: "curve \<Rightarrow> point_arg \<Rightarrow> byte list \<Rightarrow> js_error + mul_result" where
  "ecMul ec pnt scalar =
     try_catch
       (let ecPoint =
          (case pnt of
             EcPoint p \<Rightarrow> p
           | Coordinates px py \<Rightarrow> curve_point ec (bytes_to_bn px) (bytes_to_bn py))
        in case toScalar scalar of
             None \<Rightarrow> Inl TypeError
           | Some sc \<Rightarrow>
               (let result = point_mul ec ecPoint sc
                in and_then (pointXToBytes result) (\<lambda>xb.
                   and_then (pointYToBytes result) (\<lambda>yb.
                   Inr (MulResult xb yb result)))))
       (\<lambda>error. Inl error)"

definition tweak :: "curve \<Rightarrow> point \<Rightarrow> byte list \<Rightarrow> js_error + (byte list \<times> byte list)" where
  "tweak ec result scalar =
     try_catch
       (case toScalar scalar of
          None \<Rightarrow> Inl TypeError
        | Some sc \<Rightarrow>
            (let tweakPoint = g_mul ec sc;
                 sumPoint = point_add ec result tweakPoint
             in and_then (pointXToBytes sumPoint) (\<lambda>xb.
                and_then (pointYToBytes sumPoint) (\<lambda>yb.
                Inr (xb, yb)))))
       (\<lambda>error. Inl error)"

section \<open>Deterministic nonce\<close>

text \<open>
  \<^verbatim>\<open>rfc6979Generate\<close> signs with the package (\<^verbatim>\<open>key.sign(msgHash, signOptions)\<close>, a parameter
  here) and reads the property \<^verbatim>\<open>k\<close> of the signature object it gets back. A signature
  object of the package has the properties \<^verbatim>\<open>r\<close>, \<^verbatim>\<open>s\<close> and \<^verbatim>\<open>recoveryParam\<close> and no other
  (the source reads \<^verbatim>\<open>k\<close> through a cast to \<^verbatim>\<open>any\<close>), so the read gives \<^verbatim>\<open>undefined\<close>.
\<close>

record elliptic_signature =
  r_bn :: int
  s_bn :: int
  recoveryParam :: "nat option"

definition property_k :: "elliptic_signature \<Rightarrow> int option" where
  "property_k sign = None"

definition rfc6979Generate ::
  "(byte list \<Rightarrow> byte list \<Rightarrow> js_error + elliptic_signature) \<Rightarrow> byte list \<Rightarrow> byte list
     \<Rightarrow> js_error + byte list" where
  "rfc6979Generate key_sign privKey message =
     try_catch
       (and_then (key_sign privKey message) (\<lambda>sign.
        let k = property_k sign in bnToBytes k))
       (\<lambda>error. Inl error)"

section \<open>Signatures (class Secp256k1EcdsaSignature)\<close>

definition SECP256K1_ECDSA_SIGNATURE_LENGTH :: nat where
  "SECP256K1_ECDSA_SIGNATURE_LENGTH = 64"

datatype Secp256k1EcdsaSignature = Secp256k1EcdsaSignature (signature: "byte list")

definition new_Secp256k1EcdsaSignature :: "byte list \<Rightarrow> js_error + Secp256k1EcdsaSignature" where
  "new_Secp256k1EcdsaSignature sigbytes =
     (if length sigbytes \<noteq> SECP256K1_ECDSA_SIGNATURE_LENGTH
      then Inl (Secp256k1EcdsaException InvalidSignature)
      else Inr (Secp256k1EcdsaSignature sigbytes))"

text \<open>\<^verbatim>\<open>array.slice(a, b)\<close> copies the elements from \<open>a\<close> up to \<open>b\<close>, as far as there are any.\<close>

definition slice :: "'a list \<Rightarrow> nat \<Rightarrow> nat \<Rightarrow> 'a list" where
  "slice xs a b = take (b - a) (drop a xs)"

text \<open>The accessors \<^verbatim>\<open>r()\<close> and \<^verbatim>\<open>s()\<close>.\<close>

definition sig_r :: "Secp256k1EcdsaSignature \<Rightarrow> byte list" where
  "sig_r this = slice (signature this) 0 32"

definition sig_s :: "Secp256k1EcdsaSignature \<Rightarrow> byte list" where
  "sig_s this = slice (signature this) 32 64"

text \<open>\<^verbatim>\<open>target.set(source, offset)\<close> overwrites a range of the target, or throws if it does not fit.\<close>

definition typed_array_set :: "byte list \<Rightarrow> byte list \<Rightarrow> nat \<Rightarrow> js_error + byte list" where
  "typed_array_set target source offset =
     (if offset + length source > length target then Inl RangeError
      else Inr (take offset target @ source @ drop (offset + length source) target))"

text \<open>
  A hash provider is an object with a method \<^verbatim>\<open>hash(message)\<close> that returns the digest. Any
  object with that method may be passed, so the call may also throw.
\<close>

type_synonym Secp256k1EcdsaHash = "byte list \<Rightarrow> js_error + byte list"

text \<open>
  \<^verbatim>\<open>signWithK\<close> and \<^verbatim>\<open>sign\<close> call the hash provider before anything else and outside any
  \<^verbatim>\<open>try\<close>: an exception of the provider leaves them as it is.
\<close>

definition signWithK ::
  "curve \<Rightarrow> Secp256k1EcdsaHash \<Rightarrow> byte list \<Rightarrow> byte list \<Rightarrow> byte list
     \<Rightarrow> js_error + Secp256k1EcdsaSignature" where
  "signWithK ec hashImpl message k privkey =
     and_then (hashImpl message) (\<lambda>h.
       try_catch
         (and_then (mulG ec k) (\<lambda>r.
          and_then (modInvN k) (\<lambda>modInvK.
          and_then (mulModN r privkey) (\<lambda>pMulRModN.
          and_then (addModN h pMulRModN) (\<lambda>sum.
          and_then (mulModN modInvK sum) (\<lambda>s.
          and_then (typed_array_set (replicate 64 0) r 0) (\<lambda>sig1.
          and_then (typed_array_set sig1 s 32) (\<lambda>sig2.
          new_Secp256k1EcdsaSignature sig2))))))))
         (\<lambda>error. Inl (Secp256k1EcdsaException InvalidSecretKey)))"

definition sign ::
  "curve \<Rightarrow> (byte list \<Rightarrow> byte list \<Rightarrow> js_error + elliptic_signature) \<Rightarrow> Secp256k1EcdsaHash
     \<Rightarrow> byte list \<Rightarrow> byte list \<Rightarrow> js_error + Secp256k1EcdsaSignature" where
  "sign ec key_sign hashImpl message privkey =
     and_then (hashImpl message) (\<lambda>h.
     and_then (rfc6979Generate key_sign privkey h) (\<lambda>k.
     signWithK ec hashImpl message k privkey))"

text \<open>
  \<^verbatim>\<open>normalizeS\<close>. The loop compares the two buffers from the first byte on and stops at the
  first difference; it runs only when they have the same length.
\<close>

fun compare_loop :: "byte list \<Rightarrow> byte list \<Rightarrow> bool" where
  "compare_loop (a # sBN) (b # nDiv2Buf) =
     (if a > b then True else if a < b then False else compare_loop sBN nDiv2Buf)"
| "compare_loop _ _ = False"

definition shouldNegate :: "byte list \<Rightarrow> byte list \<Rightarrow> bool" where
  "shouldNegate sBN nDiv2Buf =
     (if length sBN > length nDiv2Buf then True
      else if length sBN = length nDiv2Buf then compare_loop sBN nDiv2Buf
      else False)"

definition normalizeS :: "Secp256k1EcdsaSignature \<Rightarrow> js_error + Secp256k1EcdsaSignature" where
  "normalizeS this =
     (let s = sig_s this;
          nDiv2Buf = bn_toArray_be 32 Curve_N_DIV_2
      in if shouldNegate s nDiv2Buf
         then and_then (negateN s) (\<lambda>negS.
              and_then (typed_array_set (replicate 64 0) (sig_r this) 0) (\<lambda>sig1.
              and_then (typed_array_set sig1 negS 32) (\<lambda>sig2.
              new_Secp256k1EcdsaSignature sig2)))
         else Inr this)"

text \<open>
  \<^verbatim>\<open>verify\<close>. Reading a buffer past its end gives \<^verbatim>\<open>undefined\<close> (\<open>None\<close>). The loop runs
  over the 32 indices and returns at the first difference. The whole body, the call of
  the hash provider included, is inside the \<^verbatim>\<open>try\<close>, and the handler returns \<^verbatim>\<open>false\<close>.
  \<open>recoveredPoint\<close> is the part of the body before the comparison.
\<close>

definition byte_at :: "byte list \<Rightarrow> nat \<Rightarrow> byte option" where
  "byte_at buf i = (if i < length buf then Some (buf ! i) else None)"

fun verify_loop :: "byte list \<Rightarrow> byte list \<Rightarrow> nat \<Rightarrow> nat \<Rightarrow> bool" where
  "verify_loop rDigest pointX i 0 = True"
| "verify_loop rDigest pointX i (Suc n) =
     (if byte_at rDigest i \<noteq> byte_at pointX i then False
      else verify_loop rDigest pointX (Suc i) n)"

definition recoveredPoint ::
  "curve \<Rightarrow> Secp256k1EcdsaHash \<Rightarrow> byte list \<Rightarrow> byte list \<times> byte list \<Rightarrow> Secp256k1EcdsaSignature
     \<Rightarrow> js_error + (byte list \<times> byte list)" where
  "recoveredPoint ec hashImpl message pubkey this =
     and_then (hashImpl message) (\<lambda>h.
     and_then (modInvN (sig_s this)) (\<lambda>s1.
     and_then (mulModN (sig_r this) s1) (\<lambda>rMulS1.
     and_then (ecMul ec (Coordinates (fst pubkey) (snd pubkey)) rMulS1) (\<lambda>pnt.
     and_then (mulModN h s1) (\<lambda>hMulS1.
     tweak ec (product pnt) hMulS1)))))"

definition verify ::
  "curve \<Rightarrow> Secp256k1EcdsaHash \<Rightarrow> byte list \<Rightarrow> byte list \<times> byte list \<Rightarrow> Secp256k1EcdsaSignature
     \<Rightarrow> js_error + bool" where
  "verify ec hashImpl message pubkey this =
     try_catch
       (and_then (recoveredPoint ec hashImpl message pubkey this) (\<lambda>recovered.
        let rDigest = sig_r this;
            pointX = fst recovered
        in Inr (verify_loop rDigest pointX 0 32)))
       (\<lambda>error. Inr False)"

text \<open>
  The public key of a private key, as the tests derive it:
  \<^verbatim>\<open>ec.keyFromPrivate(privkey).getPublic()\<close> on the key's bytes (imported as a number and
  reduced modulo the order), each coordinate printed to 32 bytes.
\<close>

definition pubkeyOf :: "curve \<Rightarrow> byte list \<Rightarrow> js_error + (byte list \<times> byte list)" where
  "pubkeyOf ec privkey =
     (let priv = bn_umod (bytes_to_bn privkey) Curve_N;
          pubPoint = g_mul ec priv
      in and_then (pointXToBytes pubPoint) (\<lambda>xb.
         and_then (pointYToBytes pubPoint) (\<lambda>yb.
         Inr (xb, yb))))"

section \<open>The curve secp256k1\<close>

text \<open>
  The parameters of the preset \<^verbatim>\<open>'secp256k1'\<close>: the field prime, the generator, and the
  coefficients \<open>a = 0\<close> and \<open>b = 7\<close>. Addition and doubling follow the package's affine
  formulas, with their case distinctions in order; \<^verbatim>\<open>redInvm\<close> is the inverse modulo the
  field prime. \<^verbatim>\<open>ec.curve.point(x, y)\<close> reduces the coordinates modulo the field prime and
  does not check the curve equation; \<^verbatim>\<open>curve.validate(point)\<close> is the package's check, which
  this program never calls.

  \<^verbatim>\<open>P.mul(k)\<close> is modelled by doubling and adding. The package computes the multiple with
  windowed methods and, for a point without precomputed doubles, with the endomorphism
  of the curve. For a point of the curve both give the multiple \<open>k * P\<close> of the group, and
  for every point the multiple by 0 is the point at infinity and the multiple by 1 is
  the point itself. For a point that is not on the curve and a scalar above 1 the
  package's result depends on its method and is not the one computed here: \<open>ec_mul\<close>
  stands for \<^verbatim>\<open>P.mul(k)\<close> only where \<open>validate P\<close> holds or \<open>k \<le> 1\<close>. No statement below
  evaluates \<open>point_mul secp256k1\<close> anywhere else.
\<close>

definition secp256k1_p :: int where
  "secp256k1_p = 0xFFFFFFFFFFFFFFFFFFFFFFFFFFFFFFFFFFFFFFFFFFFFFFFFFFFFFFFEFFFFFC2F"

definition secp256k1_g :: point where
  "secp256k1_g =
     Point 0x79BE667EF9DCBBAC55A06295CE870B07029BFCDB2DCE28D959F2815B16F81798
           0x483ADA7726A3C4655DA4FBFC0E1108A8FD17B448A68554199C47D08FFB10D4B8"

definition redInvm :: "int \<Rightarrow> int" where
  "redInvm a = bn_invm a secp256k1_p"

definition ec_dbl :: "point \<Rightarrow> point" where
  "ec_dbl pt =
     (case pt of
        Infinity \<Rightarrow> Infinity
      | Point x y \<Rightarrow>
          (let ys1 = (y + y) mod secp256k1_p
           in if ys1 = 0 then Infinity
              else (let x2 = (x * x) mod secp256k1_p;
                        dyinv = redInvm ys1;
                        c = ((x2 + x2 + x2 + 0) * dyinv) mod secp256k1_p;
                        nx = (c * c - x - x) mod secp256k1_p;
                        ny = (c * (x - nx) - y) mod secp256k1_p
                    in Point nx ny)))"

definition ec_add :: "point \<Rightarrow> point \<Rightarrow> point" where
  "ec_add pt q =
     (case pt of
        Infinity \<Rightarrow> q
      | Point x1 y1 \<Rightarrow>
          (case q of
             Infinity \<Rightarrow> pt
           | Point x2 y2 \<Rightarrow>
               if x1 = x2 \<and> y1 = y2 then ec_dbl pt
               else if x1 = x2 \<and> (- y1) mod secp256k1_p = y2 then Infinity
               else if x1 = x2 then Infinity
               else (let c0 = (y1 - y2) mod secp256k1_p;
                         c = (if c0 \<noteq> 0
                              then (c0 * redInvm ((x1 - x2) mod secp256k1_p)) mod secp256k1_p
                              else c0);
                         nx = (c * c - x1 - x2) mod secp256k1_p;
                         ny = (c * (x1 - nx) - y1) mod secp256k1_p
                     in Point nx ny)))"

function ec_mul :: "point \<Rightarrow> int \<Rightarrow> point" where
  "ec_mul pt k =
     (if k \<le> 0 then Infinity
      else if k mod 2 = 0 then ec_dbl (ec_mul pt (k div 2))
      else ec_add (ec_dbl (ec_mul pt (k div 2))) pt)"
  by pat_completeness auto
termination
  by (relation "measure (\<lambda>(pt, k). nat k)") auto

declare ec_mul.simps [simp del]

definition secp256k1 :: curve where
  "secp256k1 =
     \<lparr> g_mul = ec_mul secp256k1_g,
       point_mul = ec_mul,
       point_add = ec_add,
       curve_point = (\<lambda>x y. Point (x mod secp256k1_p) (y mod secp256k1_p)) \<rparr>"

text \<open>\<^verbatim>\<open>curve.validate(point)\<close>: the curve equation \<open>y\<^sup>2 = x\<^sup>3 + a * x + b\<close> modulo the field prime.\<close>

definition validate :: "point \<Rightarrow> bool" where
  "validate pnt =
     (case pnt of
        Infinity \<Rightarrow> True
      | Point x y \<Rightarrow>
          (let ax = (0 * x) mod secp256k1_p;
               rhs = (x * x * x + ax + 7) mod secp256k1_p
           in (y * y - rhs) mod secp256k1_p = 0))"

text \<open>A point whose coordinates are residues of the field prime.\<close>

definition in_field :: "point \<Rightarrow> bool" where
  "in_field pt =
     (case pt of
        Infinity \<Rightarrow> True
      | Point x y \<Rightarrow> 0 \<le> x \<and> x < secp256k1_p \<and> 0 \<le> y \<and> y < secp256k1_p)"

section \<open>What the signing equations need from the curve\<close>

text \<open>
  The laws of a curve package whose generator has order \<open>Curve_N\<close>: multiples of the
  generator add and multiply as their scalars do modulo \<open>Curve_N\<close>; a non-zero multiple
  is an affine point with coordinates of at most 256 bits, which \<^verbatim>\<open>ec.curve.point\<close>
  rebuilds from its coordinates.
\<close>

definition group_laws :: "curve \<Rightarrow> bool" where
  "group_laws ec \<longleftrightarrow>
     (\<forall>a b. 0 \<le> a \<and> a < Curve_N \<and> 0 \<le> b \<and> b < Curve_N \<longrightarrow>
        point_add ec (g_mul ec a) (g_mul ec b) = g_mul ec ((a + b) mod Curve_N)) \<and>
     (\<forall>d a. 0 \<le> d \<and> d < Curve_N \<and> 0 \<le> a \<and> a < Curve_N \<longrightarrow>
        point_mul ec (g_mul ec d) a = g_mul ec ((d * a) mod Curve_N)) \<and>
     (\<forall>a. 0 < a \<and> a < Curve_N \<longrightarrow>
        (\<exists>x y. g_mul ec a = Point x y \<and> 0 \<le> x \<and> x < 2 ^ 256 \<and> 0 \<le> y \<and> y < 2 ^ 256
           \<and> curve_point ec x y = Point x y))"

text \<open>
  The laws are consistent: the integers modulo \<open>Curve_N\<close> under addition, with generator 1
  and each non-zero element as its own two coordinates, satisfy them.
\<close>

definition zn_point :: "int \<Rightarrow> point" where
  "zn_point a = (if a mod Curve_N = 0 then Infinity else Point (a mod Curve_N) (a mod Curve_N))"

definition zn_value :: "point \<Rightarrow> int" where
  "zn_value pt = (case pt of Infinity \<Rightarrow> 0 | Point x y \<Rightarrow> x)"

definition zn_group :: curve where
  "zn_group =
     \<lparr> g_mul = zn_point,
       point_mul = (\<lambda>pt k. zn_point (zn_value pt * k)),
       point_add = (\<lambda>pt q. zn_point (zn_value pt + zn_value q)),
       curve_point = (\<lambda>x y. Point x y) \<rparr>"

section \<open>Objects and aliasing\<close>








section \<open>Certificates of primality\<close>

text \<open>
  The signing equations divide by the nonce and by \<open>s\<close> modulo the order of the group,
  which is possible for every scalar that is not 0 modulo the order because the order is
  a prime number. The definitions of this section are not code of the library: they are
  the arithmetic with which the primality of \<open>Curve_N\<close> is established further down, by
  trial division for small numbers and by Pocklington's criterion for large ones.
\<close>

definition is_prime :: "nat \<Rightarrow> bool" where
  "is_prime p \<longleftrightarrow> 1 < p \<and> (\<forall>d. d dvd p \<longrightarrow> d = 1 \<or> d = p)"

text \<open>
  Modular exponentiation by repeated squaring. The reduction \<open>red\<close> is a parameter: any
  function that keeps the residue modulo \<open>n\<close> may be used, so that a cheap reduction can
  replace the division by \<open>n\<close>.
\<close>

definition sq :: "int \<Rightarrow> int" where
  "sq x = x * x"

function modpow :: "(int \<Rightarrow> int) \<Rightarrow> int \<Rightarrow> int \<Rightarrow> int" where
  "modpow red a e =
     (if e \<le> 0 then 1
      else if e mod 2 = 0 then red (sq (modpow red a (e div 2)))
      else red (red (sq (modpow red a (e div 2))) * a))"
  by pat_completeness auto
termination
  by (relation "measure (\<lambda>(red, a, e). nat e)") auto

declare modpow.simps [simp del]

text \<open>Trial division: no \<open>d' \<ge> d\<close> with \<open>d' * d' \<le> n\<close> divides \<open>n\<close>.\<close>

function trial :: "int \<Rightarrow> int \<Rightarrow> bool" where
  "trial n d =
     (if n < d * d then True
      else if n mod d = 0 then False
      else trial n (d + 1))"
  by pat_completeness auto
termination
proof (relation "measure (\<lambda>(n, d). nat (n + 1 - d))")
  show "wf (measure (\<lambda>(n, d). nat (n + 1 - d)))" by simp
next
  fix n d :: int
  assume "\<not> n < d * d"
  then have le: "d * d \<le> n" by simp
  have "d \<le> d * d"
  proof (cases "1 \<le> d")
    case True
    then have "d * 1 \<le> d * d" by (intro mult_left_mono) simp_all
    then show ?thesis by simp
  next
    case False
    then have "d \<le> 0" by simp
    also have "0 \<le> d * d" by (rule zero_le_square)
    finally show ?thesis .
  qed
  then have "d \<le> n" using le by simp
  then show "((n, d + 1), (n, d)) \<in> measure (\<lambda>(n, d). nat (n + 1 - d))" by simp
qed

declare trial.simps [simp del]

text \<open>
  Two reductions. Barrett's subtracts from \<open>x\<close> an estimate of \<open>(x div n) * n\<close> obtained
  with shifts and a precomputed \<open>mu = 2 ^ (2 * k + 4) div n\<close>, \<open>k\<close> being the number of bits
  of \<open>n\<close>. The other one is for a modulus of the form \<open>2 ^ k - c\<close>, where \<open>2 ^ k\<close> is
  congruent to \<open>c\<close>: the bits of \<open>x\<close> above the \<open>k\<close>-th are multiplied by \<open>c\<close> and added to
  the bits below.
\<close>

definition barrett_red :: "nat \<Rightarrow> int \<Rightarrow> int \<Rightarrow> int \<Rightarrow> int" where
  "barrett_red k mu n x = x - drop_bit (k + 5) (drop_bit (k - 1) x * mu) * n"

definition barrett :: "int \<Rightarrow> nat \<Rightarrow> int \<Rightarrow> int" where
  "barrett n k = barrett_red k (2 ^ (2 * k + 4) div n) n"

definition fold_step :: "nat \<Rightarrow> int \<Rightarrow> int \<Rightarrow> int \<Rightarrow> int" where
  "fold_step k c x h = h * c + (x - push_bit k h)"

definition fold_red :: "nat \<Rightarrow> int \<Rightarrow> int \<Rightarrow> int" where
  "fold_red k c x = fold_step k c x (drop_bit k x)"

definition Curve_N_red :: "int \<Rightarrow> int" where
  "Curve_N_red x =
     fold_red 256 432420386565659656852420866394968145599
       (fold_red 256 432420386565659656852420866394968145599
         (fold_red 256 432420386565659656852420866394968145599 x))"

text \<open>
  The two conditions of Pocklington's criterion for \<open>n\<close>, a base \<open>a\<close> and a prime factor
  \<open>q\<close> of \<open>n - 1\<close>: \<open>a ^ (n - 1)\<close> is 1 modulo \<open>n\<close>, and \<open>a ^ ((n - 1) div q) - 1\<close> has no
  factor in common with \<open>n\<close>.
\<close>

definition fermat_check :: "(int \<Rightarrow> int) \<Rightarrow> int \<Rightarrow> int \<Rightarrow> bool" where
  "fermat_check red n a \<longleftrightarrow> 0 < a \<and> 1 < n \<and> modpow red a (n - 1) mod n = 1"

definition order_check :: "(int \<Rightarrow> int) \<Rightarrow> int \<Rightarrow> int \<Rightarrow> int \<Rightarrow> bool" where
  "order_check red n q a \<longleftrightarrow>
     0 < q \<and> (n - 1) mod q = 0 \<and> gcd (modpow red a ((n - 1) div q) mod n - 1) n = 1"

section \<open>Concrete inputs\<close>

text \<open>The byte arrays and signatures at which the operations are evaluated further down.\<close>

definition bytes_of_1 :: "byte list" where
  "bytes_of_1 = replicate 31 0 @ [1]"

definition bytes_of_half_N_plus_1 :: "byte list" where
  "bytes_of_half_N_plus_1 =
     [0x7F, 0xFF, 0xFF, 0xFF, 0xFF, 0xFF, 0xFF, 0xFF, 0xFF, 0xFF, 0xFF, 0xFF, 0xFF, 0xFF, 0xFF, 0xFF,
      0x5D, 0x57, 0x6E, 0x73, 0x57, 0xA4, 0x50, 0x1D, 0xDF, 0xE9, 0x2F, 0x46, 0x68, 0x1B, 0x20, 0xA1]"

definition bytes_of_N_minus_2 :: "byte list" where
  "bytes_of_N_minus_2 =
     [0xFF, 0xFF, 0xFF, 0xFF, 0xFF, 0xFF, 0xFF, 0xFF, 0xFF, 0xFF, 0xFF, 0xFF, 0xFF, 0xFF, 0xFF, 0xFE,
      0xBA, 0xAE, 0xDC, 0xE6, 0xAF, 0x48, 0xA0, 0x3B, 0xBF, 0xD2, 0x5E, 0x8C, 0xD0, 0x36, 0x41, 0x3F]"

definition bytes_of_N_minus_1 :: "byte list" where
  "bytes_of_N_minus_1 =
     [0xFF, 0xFF, 0xFF, 0xFF, 0xFF, 0xFF, 0xFF, 0xFF, 0xFF, 0xFF, 0xFF, 0xFF, 0xFF, 0xFF, 0xFF, 0xFE,
      0xBA, 0xAE, 0xDC, 0xE6, 0xAF, 0x48, 0xA0, 0x3B, 0xBF, 0xD2, 0x5E, 0x8C, 0xD0, 0x36, 0x41, 0x40]"

definition bytes_of_N :: "byte list" where
  "bytes_of_N =
     [0xFF, 0xFF, 0xFF, 0xFF, 0xFF, 0xFF, 0xFF, 0xFF, 0xFF, 0xFF, 0xFF, 0xFF, 0xFF, 0xFF, 0xFF, 0xFE,
      0xBA, 0xAE, 0xDC, 0xE6, 0xAF, 0x48, 0xA0, 0x3B, 0xBF, 0xD2, 0x5E, 0x8C, 0xD0, 0x36, 0x41, 0x41]"

definition bytes_of_N_plus_1 :: "byte list" where
  "bytes_of_N_plus_1 =
     [0xFF, 0xFF, 0xFF, 0xFF, 0xFF, 0xFF, 0xFF, 0xFF, 0xFF, 0xFF, 0xFF, 0xFF, 0xFF, 0xFF, 0xFF, 0xFE,
      0xBA, 0xAE, 0xDC, 0xE6, 0xAF, 0x48, 0xA0, 0x3B, 0xBF, 0xD2, 0x5E, 0x8C, 0xD0, 0x36, 0x41, 0x42]"

definition bytes_2_256 :: "byte list" where
  "bytes_2_256 = 1 # replicate 32 0"

definition bytes_neg_2_256 :: "byte list" where
  "bytes_neg_2_256 =
     [0xFF, 0xFF, 0xFF, 0xFF, 0xFF, 0xFF, 0xFF, 0xFF, 0xFF, 0xFF, 0xFF, 0xFF, 0xFF, 0xFF, 0xFF, 0xFD,
      0x75, 0x5D, 0xB9, 0xCD, 0x5E, 0x91, 0x40, 0x77, 0x7F, 0xA4, 0xBD, 0x19, 0xA0, 0x6C, 0x82, 0x82]"

definition sig_low :: Secp256k1EcdsaSignature where
  "sig_low = Secp256k1EcdsaSignature (replicate 32 0 @ bytes_of_1)"

definition sig_high :: Secp256k1EcdsaSignature where
  "sig_high = Secp256k1EcdsaSignature (replicate 32 0 @ bytes_of_N_minus_1)"

definition sig_over :: Secp256k1EcdsaSignature where
  "sig_over = Secp256k1EcdsaSignature (replicate 32 0 @ bytes_of_N_plus_1)"

definition bytes_of_2 :: "byte list" where
  "bytes_of_2 = replicate 31 0 @ [2]"

definition bytes_of_Gx :: "byte list" where
  "bytes_of_Gx =
     [0x79, 0xBE, 0x66, 0x7E, 0xF9, 0xDC, 0xBB, 0xAC, 0x55, 0xA0, 0x62, 0x95, 0xCE, 0x87, 0x0B, 0x07,
      0x02, 0x9B, 0xFC, 0xDB, 0x2D, 0xCE, 0x28, 0xD9, 0x59, 0xF2, 0x81, 0x5B, 0x16, 0xF8, 0x17, 0x98]"

definition bytes_of_Gy :: "byte list" where
  "bytes_of_Gy =
     [0x48, 0x3A, 0xDA, 0x77, 0x26, 0xA3, 0xC4, 0x65, 0x5D, 0xA4, 0xFB, 0xFC, 0x0E, 0x11, 0x08, 0xA8,
      0xFD, 0x17, 0xB4, 0x48, 0xA6, 0x85, 0x54, 0x19, 0x9C, 0x47, 0xD0, 0x8F, 0xFB, 0x10, 0xD4, 0xB8]"

definition bytes_of_N_minus_Gx :: "byte list" where
  "bytes_of_N_minus_Gx =
     [0x86, 0x41, 0x99, 0x81, 0x06, 0x23, 0x44, 0x53, 0xAA, 0x5F, 0x9D, 0x6A, 0x31, 0x78, 0xF4, 0xF7,
      0xB8, 0x12, 0xE0, 0x0B, 0x81, 0x7A, 0x77, 0x62, 0x65, 0xDF, 0xDD, 0x31, 0xB9, 0x3E, 0x29, 0xA9]"

definition bytes_of_x2G :: "byte list" where
  "bytes_of_x2G =
     [0xC6, 0x04, 0x7F, 0x94, 0x41, 0xED, 0x7D, 0x6D, 0x30, 0x45, 0x40, 0x6E, 0x95, 0xC0, 0x7C, 0xD8,
      0x5C, 0x77, 0x8E, 0x4B, 0x8C, 0xEF, 0x3C, 0xA7, 0xAB, 0xAC, 0x09, 0xB9, 0x5C, 0x70, 0x9E, 0xE5]"

definition sig_s_zero :: Secp256k1EcdsaSignature where
  "sig_s_zero = Secp256k1EcdsaSignature (bytes_of_Gx @ replicate 32 0)"

definition sig_2G :: Secp256k1EcdsaSignature where
  "sig_2G = Secp256k1EcdsaSignature (bytes_of_x2G @ bytes_of_x2G)"

text \<open>
  The x-coordinate of the sum of the generator and the point \<open>(1, 0)\<close>, which is not on
  the curve, and the signature with this \<open>r\<close> and \<open>s\<close>.
\<close>

definition bytes_of_0 :: "byte list" where
  "bytes_of_0 = replicate 32 0"

definition bytes_of_x_sum :: "byte list" where
  "bytes_of_x_sum =
     [0x53, 0xD6, 0xDB, 0xAA, 0x12, 0xC3, 0x34, 0x68, 0x38, 0xD5, 0xB9, 0x74, 0xA1, 0xB5, 0x0C, 0x91,
      0x00, 0xB6, 0x11, 0x6A, 0x05, 0xE9, 0xC1, 0x4E, 0xAA, 0x8E, 0x03, 0x69, 0xA2, 0xDC, 0xE7, 0x80]"

definition sig_x_sum :: Secp256k1EcdsaSignature where
  "sig_x_sum = Secp256k1EcdsaSignature (bytes_of_x_sum @ bytes_of_x_sum)"



definition sig_toy :: Secp256k1EcdsaSignature where
  "sig_toy = Secp256k1EcdsaSignature (bytes_of_2 @ bytes_of_1)"

text \<open>Hash providers that return a fixed 32-byte digest for every message.\<close>

definition hash_zero :: Secp256k1EcdsaHash where
  "hash_zero message = Inr (replicate 32 0)"

definition hash_x2G :: Secp256k1EcdsaHash where
  "hash_x2G message = Inr bytes_of_x2G"

definition hash_N_minus_Gx :: Secp256k1EcdsaHash where
  "hash_N_minus_Gx message = Inr bytes_of_N_minus_Gx"

definition hash_x_sum :: Secp256k1EcdsaHash where
  "hash_x_sum message = Inr bytes_of_x_sum"

text \<open>A hash provider that throws.\<close>

definition hash_throws :: Secp256k1EcdsaHash where
  "hash_throws message = Inl (Error ''hash'')"

section \<open>Printing a big number to 32 bytes\<close>

text \<open>
  A number below \<open>2 ^ 256\<close> has at most 64 hexadecimal digits; \<^verbatim>\<open>bnToBytes\<close> then returns
  its 32-byte big-endian encoding, which \<open>bytes_to_bn\<close> reads back.
\<close>

lemma parseInt16_snoc: "parseInt16 (ds @ [d]) = parseInt16 ds * 16 + d"
  by (simp add: parseInt16_def)

lemma bytes_to_bn_snoc: "bytes_to_bn (bs @ [b]) = bytes_to_bn bs * 256 + uint b"
  by (simp add: bytes_to_bn_def)

lemma parseInt16_toString16: "0 \<le> v \<Longrightarrow> parseInt16 (toString16 v) = v"
proof (induction v rule: toString16.induct)
  case (1 n)
  show ?case
  proof (cases "n < 16")
    case True
    then show ?thesis by (subst toString16.simps) (simp add: parseInt16_def)
  next
    case False
    then have "parseInt16 (toString16 (n div 16)) = n div 16"
      using 1 by simp
    with False show ?thesis
      by (subst toString16.simps) (simp add: parseInt16_snoc)
  qed
qed

lemma length_toString16: "0 \<le> v \<Longrightarrow> v < 16 ^ Suc k \<Longrightarrow> length (toString16 v) \<le> Suc k"
proof (induction v arbitrary: k rule: toString16.induct)
  case (1 n)
  show ?case
  proof (cases "n < 16")
    case True
    then show ?thesis by (subst toString16.simps) simp
  next
    case False
    then obtain j where k: "k = Suc j"
      using 1(3) by (cases k) auto
    have "n div 16 < 16 ^ Suc j"
      using 1(3) k by (simp add: div_less_iff_less_mult) 
    moreover have "0 \<le> n div 16" using 1(2) by simp
    ultimately have "length (toString16 (n div 16)) \<le> Suc j"
      using 1(1)[OF False] by blast
    with False k show ?thesis
      by (subst toString16.simps) simp
  qed
qed

lemma digits_toString16: "0 \<le> v \<Longrightarrow> d \<in> set (toString16 v) \<Longrightarrow> 0 \<le> d \<and> d < 16"
proof (induction v rule: toString16.induct)
  case (1 n)
  show ?case
  proof (cases "n < 16")
    case True
    then show ?thesis using 1(2,3) by (subst (asm) toString16.simps) simp
  next
    case False
    have "d \<in> set (toString16 (n div 16)) \<or> d = n mod 16"
      using 1(3) False by (subst (asm) toString16.simps) auto
    then show ?thesis
      using 1(1)[OF False] 1(2) by auto
  qed
qed

lemma parseInt16_zeros: "parseInt16 (replicate k 0 @ ds) = parseInt16 ds"
  by (induction k) (simp_all add: parseInt16_def)

lemma pairs_value:
  "length hex = 2 * n \<Longrightarrow> \<forall>d\<in>set hex. 0 \<le> d \<and> d < 16 \<Longrightarrow>
   bytes_to_bn (map (\<lambda>i. of_int (parseInt16 (substring hex (i * 2) (i * 2 + 2)))) [0..<n])
     = parseInt16 hex"
proof (induction n arbitrary: hex)
  case 0
  then show ?case by (simp add: bytes_to_bn_def parseInt16_def)
next
  case (Suc n)
  define hex' where "hex' = take (2 * n) hex"
  define a where "a = hex ! (2 * n)"
  define b where "b = hex ! (2 * n + 1)"
  have len': "length hex' = 2 * n" using Suc.prems(1) by (simp add: hex'_def)
  have hex: "hex = hex' @ [a, b]"
    using Suc.prems(1) unfolding hex'_def a_def b_def
    by (intro nth_equalityI) (auto simp: nth_append less_Suc_eq numeral_2_eq_2 nth_Cons')
  have dig': "\<forall>d\<in>set hex'. 0 \<le> d \<and> d < 16" using Suc.prems(2) hex by auto
  have ab: "0 \<le> a" "a < 16" "0 \<le> b" "b < 16" using Suc.prems(2) hex by auto
  let ?f = "\<lambda>h i. (of_int (parseInt16 (substring h (i * 2) (i * 2 + 2))) :: byte)"
  have IH: "bytes_to_bn (map (?f hex') [0..<n]) = parseInt16 hex'"
    using Suc.IH[OF len' dig'] .
  have same: "map (?f hex) [0..<n] = map (?f hex') [0..<n]"
    using len' by (auto simp: hex substring_def)
  have last: "substring hex (n * 2) (n * 2 + 2) = [a, b]"
    using len' by (simp add: hex substring_def)
  have pab: "parseInt16 [a, b] = a * 16 + b" by (simp add: parseInt16_def)
  have u: "uint (of_int (a * 16 + b) :: byte) = a * 16 + b"
    using ab by (subst uint_word_of_int_eq) (rule take_bit_int_eq_self, simp_all)
  have lastv: "uint (?f hex n) = a * 16 + b"
    by (simp only: last pab u)
  have whole: "parseInt16 hex = parseInt16 hex' * 256 + (a * 16 + b)"
    by (simp add: hex parseInt16_def)
  have "bytes_to_bn (map (?f hex) [0..<Suc n]) = bytes_to_bn (map (?f hex) [0..<n] @ [?f hex n])"
    by simp
  also have "\<dots> = bytes_to_bn (map (?f hex) [0..<n]) * 256 + uint (?f hex n)"
    by (rule bytes_to_bn_snoc)
  also have "\<dots> = parseInt16 hex' * 256 + (a * 16 + b)"
    by (simp only: same IH lastv)
  finally show ?case
    by (simp only: whole)
qed

lemma length_bn_hex_bytes: "length (bn_hex_bytes v) = 32"
  by (simp add: bn_hex_bytes_def Let_def)

lemma bn_hex_bytes_nonempty: "bn_hex_bytes v \<noteq> []"
  using length_bn_hex_bytes[of v] by auto

lemma bytes_to_bn_hex_bytes:
  assumes "0 \<le> v" "v < 2 ^ 256"
  shows "bytes_to_bn (bn_hex_bytes v) = v"
proof -
  define ds where "ds = toString16 v"
  define hex where "hex = padStart 64 0 ds"
  have "v < 16 ^ Suc 63" using assms(2) by simp
  then have l: "length ds \<le> 64" using length_toString16[OF assms(1), of 63] by (simp add: ds_def)
  then have lh: "length hex = 2 * 32" by (simp add: hex_def padStart_def)
  have dg: "\<forall>d\<in>set hex. 0 \<le> d \<and> d < 16"
    using digits_toString16[OF assms(1)] by (auto simp: hex_def padStart_def ds_def)
  have pv: "parseInt16 hex = v"
    by (simp add: hex_def padStart_def parseInt16_zeros ds_def parseInt16_toString16[OF assms(1)])
  show ?thesis
    using pairs_value[OF lh dg] pv
    by (simp add: bn_hex_bytes_def Let_def hex_def[symmetric] ds_def[symmetric])
qed

lemma bnToBytes_value:
  assumes "0 \<le> v" "v < 2 ^ 256"
  shows "\<exists>bs. bnToBytes (Some v) = Inr bs \<and> length bs = 32 \<and> bytes_to_bn bs = v"
  using bytes_to_bn_hex_bytes[OF assms] length_bn_hex_bytes by (simp add: bnToBytes_def)

section \<open>The concrete inputs are what their names say\<close>

lemma concrete_scalars:
  "bytes_to_bn bytes_of_1 = 1"
  "bytes_to_bn bytes_of_2 = 2"
  "bytes_to_bn bytes_of_N = Curve_N"
  "bytes_to_bn bytes_of_N_minus_1 = Curve_N - 1"
  "bytes_to_bn bytes_of_N_minus_2 = Curve_N - 2"
  "bytes_to_bn bytes_of_N_plus_1 = Curve_N + 1"
  "2 * bytes_to_bn bytes_of_half_N_plus_1 = Curve_N + 1"
  "bytes_to_bn bytes_2_256 = 2 ^ 256"
  "bytes_to_bn bytes_neg_2_256 = 2 * Curve_N - 2 ^ 256"
  by code_simp+

lemma concrete_points:
  "Point (bytes_to_bn bytes_of_Gx) (bytes_to_bn bytes_of_Gy) = secp256k1_g"
  "bytes_to_bn bytes_of_N_minus_Gx = Curve_N - bytes_to_bn bytes_of_Gx"
  "pointXToBytes (g_mul secp256k1 1) = Inr bytes_of_Gx"
  "pointXToBytes (g_mul secp256k1 2) = Inr bytes_of_x2G"
  by code_simp+

section \<open>Scalar operations: results\<close>

lemma Curve_N_pos: "0 < Curve_N"
  by (simp add: Curve_N_def)
lemma Curve_N_lt: "Curve_N < 2 ^ 256"
  by (simp add: Curve_N_def)

lemma bytes_to_bn_nonneg: "0 \<le> bytes_to_bn bs"
proof (induction bs rule: rev_induct)
  case Nil
  then show ?case by (simp add: bytes_to_bn_def)
next
  case (snoc b bs)
  then show ?case by (simp add: bytes_to_bn_snoc)
qed

lemma toScalar_Some: "toScalar a = Some v \<Longrightarrow> v = bytes_to_bn a mod Curve_N \<and> 0 \<le> v \<and> v < Curve_N"
  using Curve_N_pos by (auto simp: toScalar_def bn_umod_def split: if_splits)

lemma toScalar_nonempty: "a \<noteq> [] \<Longrightarrow> toScalar a = Some (bytes_to_bn a mod Curve_N)"
  by (simp add: toScalar_def bn_umod_def)

lemma bn_mod_nonneg: "0 \<le> a \<Longrightarrow> bn_mod a m = a mod m"
  by (simp add: bn_mod_def)

lemma scalar_bytes:
  assumes "0 \<le> v" "v < Curve_N"
  shows "\<exists>bs. bnToBytes (Some v) = Inr bs \<and> length bs = 32 \<and> bytes_to_bn bs = v"
  using bnToBytes_value[of v] assms Curve_N_lt by simp

lemma try_rethrow: "try_catch m (\<lambda>error. Inl error) = m"
  by (simp add: try_catch_def split: sum.splits)

lemma addModN_nonempty:
  "a \<noteq> [] \<Longrightarrow> b \<noteq> [] \<Longrightarrow>
   addModN a b = bnToBytes (Some ((bytes_to_bn a mod Curve_N + bytes_to_bn b mod Curve_N) mod Curve_N))"
  using Curve_N_pos by (simp add: addModN_def try_rethrow toScalar_nonempty bn_mod_nonneg)

lemma mulModN_nonempty:
  "a \<noteq> [] \<Longrightarrow> b \<noteq> [] \<Longrightarrow>
   mulModN a b = bnToBytes (Some ((bytes_to_bn a mod Curve_N * (bytes_to_bn b mod Curve_N)) mod Curve_N))"
  using Curve_N_pos by (simp add: mulModN_def try_rethrow toScalar_nonempty bn_mod_nonneg)

lemma negateN_nonempty:
  "a \<noteq> [] \<Longrightarrow>
   negateN a = bnToBytes (Some ((Curve_N - bytes_to_bn a mod Curve_N) mod Curve_N))"
proof -
  assume a: "a \<noteq> []"
  have "bytes_to_bn a mod Curve_N < Curve_N" using Curve_N_pos by simp
  then have "0 \<le> Curve_N - bytes_to_bn a mod Curve_N" by simp
  then show ?thesis
    using a by (simp add: negateN_def try_rethrow toScalar_nonempty bn_mod_nonneg)
qed

lemma modInvN_nonempty:
  "a \<noteq> [] \<Longrightarrow> modInvN a = bnToBytes (Some (bn_invm (bytes_to_bn a mod Curve_N) Curve_N))"
  by (simp add: modInvN_def try_rethrow toScalar_nonempty)

lemma addModN_empty: "a = [] \<or> b = [] \<Longrightarrow> addModN a b = Inl TypeError"
  by (auto simp: addModN_def try_catch_def toScalar_def)

lemma mulModN_empty: "a = [] \<or> b = [] \<Longrightarrow> mulModN a b = Inl TypeError"
  by (auto simp: mulModN_def try_catch_def toScalar_def)

lemma negateN_empty: "negateN [] = Inl TypeError"
  by (auto simp: negateN_def try_catch_def toScalar_def)

lemma modInvN_empty: "modInvN [] = Inl TypeError"
  by (auto simp: modInvN_def try_catch_def toScalar_def)

lemma mod_range: "0 \<le> (x::int) mod Curve_N \<and> x mod Curve_N < Curve_N"
  using Curve_N_pos by simp

lemma bn_invm_range: "0 \<le> bn_invm a Curve_N \<and> bn_invm a Curve_N < Curve_N"
  using Curve_N_pos by (simp add: bn_invm_def bn_umod_def)

lemma scalar_bytesD:
  assumes "bnToBytes (Some v) = Inr c" "0 \<le> v" "v < Curve_N"
  shows "length c = 32 \<and> bytes_to_bn c = v"
  using scalar_bytes[OF assms(2,3)] assms(1) by auto

text \<open>
  C7: every scalar that \<^verbatim>\<open>addModN\<close>, \<^verbatim>\<open>mulModN\<close>, \<^verbatim>\<open>modInvN\<close> or \<^verbatim>\<open>negateN\<close> returns is
  exactly 32 bytes long and, read as a big-endian unsigned number, lies in \<open>[0, Curve_N)\<close>.
\<close>

theorem scalar_results_canonical:
  "(addModN a b = Inr c1 \<longrightarrow>
      length c1 = 32 \<and> 0 \<le> bytes_to_bn c1 \<and> bytes_to_bn c1 < Curve_N) \<and>
   (mulModN a b = Inr c2 \<longrightarrow>
      length c2 = 32 \<and> 0 \<le> bytes_to_bn c2 \<and> bytes_to_bn c2 < Curve_N) \<and>
   (modInvN a = Inr c3 \<longrightarrow>
      length c3 = 32 \<and> 0 \<le> bytes_to_bn c3 \<and> bytes_to_bn c3 < Curve_N) \<and>
   (negateN a = Inr c4 \<longrightarrow>
      length c4 = 32 \<and> 0 \<le> bytes_to_bn c4 \<and> bytes_to_bn c4 < Curve_N)"
proof (intro conjI impI)
  assume r: "addModN a b = Inr c1"
  then have ne: "a \<noteq> []" "b \<noteq> []" using addModN_empty[of a b] by auto
  define v where "v = (bytes_to_bn a mod Curve_N + bytes_to_bn b mod Curve_N) mod Curve_N"
  have "bnToBytes (Some v) = Inr c1" using r by (simp add: addModN_nonempty[OF ne] v_def)
  moreover have "0 \<le> v" "v < Curve_N" using mod_range by (simp_all add: v_def)
  ultimately show "length c1 = 32" "0 \<le> bytes_to_bn c1" "bytes_to_bn c1 < Curve_N"
    using scalar_bytesD[of v c1] by simp_all
next
  assume r: "mulModN a b = Inr c2"
  then have ne: "a \<noteq> []" "b \<noteq> []" using mulModN_empty[of a b] by auto
  define v where "v = (bytes_to_bn a mod Curve_N * (bytes_to_bn b mod Curve_N)) mod Curve_N"
  have "bnToBytes (Some v) = Inr c2" using r by (simp add: mulModN_nonempty[OF ne] v_def)
  moreover have "0 \<le> v" "v < Curve_N" using mod_range by (simp_all add: v_def)
  ultimately show "length c2 = 32" "0 \<le> bytes_to_bn c2" "bytes_to_bn c2 < Curve_N"
    using scalar_bytesD[of v c2] by simp_all
next
  assume r: "modInvN a = Inr c3"
  then have ne: "a \<noteq> []" using modInvN_empty by auto
  define v where "v = bn_invm (bytes_to_bn a mod Curve_N) Curve_N"
  have "bnToBytes (Some v) = Inr c3" using r by (simp add: modInvN_nonempty[OF ne] v_def)
  moreover have "0 \<le> v" "v < Curve_N" using bn_invm_range by (simp_all add: v_def)
  ultimately show "length c3 = 32" "0 \<le> bytes_to_bn c3" "bytes_to_bn c3 < Curve_N"
    using scalar_bytesD[of v c3] by simp_all
next
  assume r: "negateN a = Inr c4"
  then have ne: "a \<noteq> []" using negateN_empty by auto
  define v where "v = (Curve_N - bytes_to_bn a mod Curve_N) mod Curve_N"
  have "bnToBytes (Some v) = Inr c4" using r by (simp add: negateN_nonempty[OF ne] v_def)
  moreover have "0 \<le> v" "v < Curve_N" using mod_range by (simp_all add: v_def)
  ultimately show "length c4 = 32" "0 \<le> bytes_to_bn c4" "bytes_to_bn c4 < Curve_N"
    using scalar_bytesD[of v c4] by simp_all
qed

theorem scalar_results_canonical_witness:
  "length (replicate 31 0 @ [5 :: byte]) = 32 \<and>
   bytes_to_bn (replicate 31 0 @ [5]) < Curve_N \<and>
   length (replicate 31 0 @ [6 :: byte]) = 32 \<and>
   bytes_to_bn (replicate 31 0 @ [6]) < Curve_N \<and>
   length bytes_of_half_N_plus_1 = 32 \<and>
   bytes_to_bn bytes_of_half_N_plus_1 < Curve_N \<and>
   length bytes_of_N_minus_2 = 32 \<and>
   bytes_to_bn bytes_of_N_minus_2 < Curve_N"
proof -
  have 1: "addModN [2] [3] = Inr (replicate 31 0 @ [5])" by code_simp
  have 2: "mulModN [2] [3] = Inr (replicate 31 0 @ [6])" by code_simp
  have 3: "modInvN [2] = Inr bytes_of_half_N_plus_1" by code_simp
  have 4: "negateN [2] = Inr bytes_of_N_minus_2" by code_simp
  show ?thesis
    using 1 2 3 4
      scalar_results_canonical[of "[2]" "[3]" "replicate 31 0 @ [5]" "replicate 31 0 @ [6]"
        bytes_of_half_N_plus_1 bytes_of_N_minus_2]
    by blast
qed

lemma egcd_0: "egcd 0 m = (m, 0, 1)"
  by (subst egcd.simps) simp

lemma bn_invm_0: "bn_invm 0 Curve_N = 0"
  by (simp add: bn_invm_def egcd_0 bn_umod_def)

lemma bnToBytes_0: "bnToBytes (Some 0) = Inr (replicate 32 0)"
  by code_simp

text \<open>
  C8, as amended: \<^verbatim>\<open>modInvN\<close> does not fail on an input congruent to 0 modulo \<open>Curve_N\<close>. For
  every non-empty such input it returns the 32-byte zero scalar, because \<^verbatim>\<open>invm\<close> returns 0
  for 0 and nothing checks that an inverse exists.
\<close>

theorem modInvN_zero_returns:
  "a \<noteq> [] \<Longrightarrow> bytes_to_bn a mod Curve_N = 0 \<Longrightarrow> modInvN a = Inr (replicate 32 0)"
  by (simp add: modInvN_nonempty bn_invm_0 bnToBytes_0)

theorem modInvN_zero_returns_witness:
  "bytes_of_N \<noteq> [] \<and> bytes_to_bn bytes_of_N mod Curve_N = 0 \<and> modInvN bytes_of_N = Inr (replicate 32 0)"
proof -
  have 1: "bytes_of_N \<noteq> []" by (simp add: bytes_of_N_def)
  have 2: "bytes_to_bn bytes_of_N mod Curve_N = 0" by code_simp
  show ?thesis using 1 2 modInvN_zero_returns[OF 1 2] by simp
qed

text \<open>
  The claim as stated fails at the 32 zero bytes: the call returns a value, no error.
\<close>

theorem modInvN_zero_counterexample:
  "bytes_to_bn (replicate 32 0) mod Curve_N = 0 \<and> modInvN (replicate 32 0) = Inr (replicate 32 0)"
  by code_simp

text \<open>
  C9, as amended: an operand longer than 32 bytes is not rejected. Each operation reads
  it as a big-endian number, reduces it modulo \<open>Curve_N\<close> and returns the result for it (the
  other operand being non-empty).
\<close>

theorem long_operands_accepted:
  assumes "length a > 32" "b \<noteq> []"
  shows "(\<exists>c. addModN a b = Inr c \<and> bytes_to_bn c = (bytes_to_bn a + bytes_to_bn b) mod Curve_N) \<and>
         (\<exists>c. addModN b a = Inr c \<and> bytes_to_bn c = (bytes_to_bn b + bytes_to_bn a) mod Curve_N) \<and>
         (\<exists>c. mulModN a b = Inr c \<and> bytes_to_bn c = (bytes_to_bn a * bytes_to_bn b) mod Curve_N) \<and>
         (\<exists>c. mulModN b a = Inr c \<and> bytes_to_bn c = (bytes_to_bn b * bytes_to_bn a) mod Curve_N) \<and>
         (\<exists>c. modInvN a = Inr c \<and> bytes_to_bn c = bn_invm (bytes_to_bn a mod Curve_N) Curve_N) \<and>
         (\<exists>c. negateN a = Inr c \<and> bytes_to_bn c = (Curve_N - bytes_to_bn a) mod Curve_N)"
proof -
  have ne: "a \<noteq> []" using assms(1) by auto
  have r: "\<exists>c. bnToBytes (Some (v mod Curve_N)) = Inr c \<and> bytes_to_bn c = v mod Curve_N" for v
    using scalar_bytes mod_range by blast
  have "\<exists>c. addModN a b = Inr c \<and> bytes_to_bn c = (bytes_to_bn a + bytes_to_bn b) mod Curve_N"
    using r[of "bytes_to_bn a + bytes_to_bn b"]
    by (simp only: addModN_nonempty[OF ne assms(2)] mod_add_eq)
  moreover have "\<exists>c. addModN b a = Inr c \<and> bytes_to_bn c = (bytes_to_bn b + bytes_to_bn a) mod Curve_N"
    using r[of "bytes_to_bn b + bytes_to_bn a"]
    by (simp only: addModN_nonempty[OF assms(2) ne] mod_add_eq)
  moreover have "\<exists>c. mulModN a b = Inr c \<and> bytes_to_bn c = (bytes_to_bn a * bytes_to_bn b) mod Curve_N"
    using r[of "bytes_to_bn a * bytes_to_bn b"]
    by (simp only: mulModN_nonempty[OF ne assms(2)] mod_mult_eq)
  moreover have "\<exists>c. mulModN b a = Inr c \<and> bytes_to_bn c = (bytes_to_bn b * bytes_to_bn a) mod Curve_N"
    using r[of "bytes_to_bn b * bytes_to_bn a"]
    by (simp only: mulModN_nonempty[OF assms(2) ne] mod_mult_eq)
  moreover have "\<exists>c. modInvN a = Inr c \<and> bytes_to_bn c = bn_invm (bytes_to_bn a mod Curve_N) Curve_N"
    using scalar_bytes[OF bn_invm_range[THEN conjunct1] bn_invm_range[THEN conjunct2]]
    by (simp only: modInvN_nonempty[OF ne]) blast
  moreover have "\<exists>c. negateN a = Inr c \<and> bytes_to_bn c = (Curve_N - bytes_to_bn a) mod Curve_N"
    using r[of "Curve_N - bytes_to_bn a"]
    by (simp only: negateN_nonempty[OF ne] mod_diff_right_eq)
  ultimately show ?thesis by blast
qed

theorem long_operands_accepted_witness:
  "length bytes_2_256 > 32 \<and> [0 :: byte] \<noteq> [] \<and>
   (\<exists>c. negateN bytes_2_256 = Inr c \<and> bytes_to_bn c = (Curve_N - bytes_to_bn bytes_2_256) mod Curve_N)"
proof -
  have 1: "length bytes_2_256 > 32" by (simp add: bytes_2_256_def)
  have 2: "[0 :: byte] \<noteq> []" by simp
  show ?thesis using 1 2 long_operands_accepted[OF 1 2] by blast
qed

text \<open>
  The claim as stated fails at the 33-byte encoding of \<open>2 ^ 256\<close>: \<^verbatim>\<open>negateN\<close> and
  \<^verbatim>\<open>addModN\<close> return scalars for it.
\<close>

theorem long_operand_counterexample:
  "length bytes_2_256 = 33 \<and> negateN bytes_2_256 = Inr bytes_neg_2_256
   \<and> addModN bytes_2_256 [0] = Inr (replicate 15 0 @ [0x01, 0x45, 0x51, 0x23, 0x19, 0x50, 0xB7, 0x5F, 0xC4, 0x40, 0x2D, 0xA1, 0x73, 0x2F, 0xC9, 0xBE, 0xBF])"
  by code_simp

section \<open>Normalisation\<close>

text \<open>
  On buffers of the same length the comparison loop decides the order of the numbers they
  encode, so \<open>shouldNegate\<close> holds exactly when \<open>s\<close> exceeds half the order.
\<close>

lemma bytes_to_bn_Cons: "bytes_to_bn (b # bs) = uint b * 256 ^ length bs + bytes_to_bn bs"
proof (induction bs rule: rev_induct)
  case Nil
  then show ?case by (simp add: bytes_to_bn_def)
next
  case (snoc x xs)
  have "bytes_to_bn (b # xs @ [x]) = bytes_to_bn ((b # xs) @ [x])" by simp
  also have "\<dots> = bytes_to_bn (b # xs) * 256 + uint x" by (rule bytes_to_bn_snoc)
  finally show ?case using snoc by (simp add: bytes_to_bn_snoc algebra_simps)
qed

lemma bytes_to_bn_bound: "bytes_to_bn bs < 256 ^ length bs"
proof (induction bs rule: rev_induct)
  case Nil
  then show ?case by (simp add: bytes_to_bn_def)
next
  case (snoc x xs)
  have "uint x < 256" using uint_bounded[of x] by simp
  then show ?case using snoc by (simp add: bytes_to_bn_snoc)
qed

lemma compare_loop_gt:
  "length sBN = length nDiv2Buf \<Longrightarrow> compare_loop sBN nDiv2Buf \<longleftrightarrow> bytes_to_bn sBN > bytes_to_bn nDiv2Buf"
proof (induction sBN nDiv2Buf rule: list_induct2)
  case Nil
  then show ?case by simp
next
  case (Cons a as b bs)
  have ba: "0 \<le> bytes_to_bn as" "bytes_to_bn as < 256 ^ length as"
    using bytes_to_bn_nonneg bytes_to_bn_bound by auto
  have bb: "0 \<le> bytes_to_bn bs" "bytes_to_bn bs < 256 ^ length as"
    using bytes_to_bn_nonneg bytes_to_bn_bound[of bs] Cons.hyps by auto
  consider "a > b" | "a < b" | "a = b" by fastforce
  then show ?case
  proof cases
    case 1
    then have "uint b + 1 \<le> uint a" by (simp add: word_less_def)
    then have "(uint b + 1) * 256 ^ length as \<le> uint a * 256 ^ length as"
      by (intro mult_right_mono) simp_all
    then have "bytes_to_bn (b # bs) < bytes_to_bn (a # as)"
      using ba bb Cons.hyps by (simp add: bytes_to_bn_Cons algebra_simps)
    with 1 show ?thesis by simp
  next
    case 2
    then have "uint a + 1 \<le> uint b" by (simp add: word_less_def)
    then have "(uint a + 1) * 256 ^ length as \<le> uint b * 256 ^ length as"
      by (intro mult_right_mono) simp_all
    then have "bytes_to_bn (a # as) < bytes_to_bn (b # bs)"
      using ba bb Cons.hyps by (simp add: bytes_to_bn_Cons algebra_simps)
    with 2 show ?thesis by auto
  next
    case 3
    then show ?thesis using Cons by (simp add: bytes_to_bn_Cons)
  qed
qed

lemma nDiv2Buf_value:
  "length (bn_toArray_be 32 Curve_N_DIV_2) = 32 \<and> bytes_to_bn (bn_toArray_be 32 Curve_N_DIV_2) = Curve_N_DIV_2"
  by code_simp

lemma shouldNegate_iff:
  "length s = 32 \<Longrightarrow> shouldNegate s (bn_toArray_be 32 Curve_N_DIV_2) \<longleftrightarrow> bytes_to_bn s > Curve_N_DIV_2"
  using nDiv2Buf_value compare_loop_gt[of s "bn_toArray_be 32 Curve_N_DIV_2"]
  by (simp add: shouldNegate_def)

lemma sig_parts:
  assumes "length (signature this) = 64"
  shows "length (sig_r this) = 32" "length (sig_s this) = 32"
    "signature this = sig_r this @ sig_s this"
  using assms by (simp_all add: sig_r_def sig_s_def slice_def)

lemma sig_of_parts:
  assumes "length r = 32" "length s = 32"
  shows "sig_r (Secp256k1EcdsaSignature (r @ s)) = r" "sig_s (Secp256k1EcdsaSignature (r @ s)) = s"
  using assms by (simp_all add: sig_r_def sig_s_def slice_def)

lemma assemble:
  assumes "length r = 32" "length s = 32"
  shows "and_then (typed_array_set (replicate 64 0) r 0) (\<lambda>sig1.
         and_then (typed_array_set sig1 s 32) (\<lambda>sig2.
         new_Secp256k1EcdsaSignature sig2)) = Inr (Secp256k1EcdsaSignature (r @ s))"
  using assms
  by (simp add: typed_array_set_def and_then_def new_Secp256k1EcdsaSignature_def
      SECP256K1_ECDSA_SIGNATURE_LENGTH_def)

lemma normalizeS_cases:
  assumes len: "length (signature this) = 64"
  shows "\<exists>negS. bnToBytes (Some ((Curve_N - bytes_to_bn (sig_s this)) mod Curve_N)) = Inr negS
           \<and> length negS = 32
           \<and> bytes_to_bn negS = (Curve_N - bytes_to_bn (sig_s this)) mod Curve_N
           \<and> normalizeS this =
               (if bytes_to_bn (sig_s this) > Curve_N_DIV_2
                then Inr (Secp256k1EcdsaSignature (sig_r this @ negS)) else Inr this)"
proof -
  note p = sig_parts[OF len]
  obtain negS where negS: "bnToBytes (Some ((Curve_N - bytes_to_bn (sig_s this)) mod Curve_N)) = Inr negS"
     "length negS = 32" "bytes_to_bn negS = (Curve_N - bytes_to_bn (sig_s this)) mod Curve_N"
    using scalar_bytes[OF mod_range[THEN conjunct1] mod_range[THEN conjunct2]] by blast
  have ne: "sig_s this \<noteq> []" using p(2) by auto
  have neg: "negateN (sig_s this) = Inr negS"
    by (simp only: negateN_nonempty[OF ne] mod_diff_right_eq negS(1))
  have "normalizeS this =
               (if bytes_to_bn (sig_s this) > Curve_N_DIV_2
                then Inr (Secp256k1EcdsaSignature (sig_r this @ negS)) else Inr this)"
    unfolding normalizeS_def Let_def shouldNegate_iff[OF p(2)] neg
    using assemble[OF p(1) negS(2)] by (simp add: and_then_def)
  then show ?thesis using negS by blast
qed

lemma Curve_N_odd: "Curve_N = 2 * Curve_N_DIV_2 + 1"
  by (simp add: Curve_N_DIV_2_def Curve_N_def)

text \<open>
  C5, as amended: for every constructed signature \<^verbatim>\<open>normalizeS\<close> returns a signature; if
  \<open>s\<close> exceeds \<open>Curve_N_DIV_2\<close> the result has the same \<open>r\<close> and its \<open>s\<close> is
  \<open>(Curve_N - s) mod Curve_N\<close>, otherwise the result is the signature itself. The result's
  \<open>s\<close> is at most \<open>Curve_N_DIV_2\<close> provided the given \<open>s\<close> is at most \<open>Curve_N\<close>.
\<close>

theorem normalizeS_result:
  assumes "new_Secp256k1EcdsaSignature sigbytes = Inr this"
  shows "\<exists>res. normalizeS this = Inr res \<and> length (signature res) = 64 \<and>
           (if bytes_to_bn (sig_s this) > Curve_N_DIV_2
            then sig_r res = sig_r this \<and>
                 bytes_to_bn (sig_s res) = (Curve_N - bytes_to_bn (sig_s this)) mod Curve_N
            else res = this) \<and>
           (bytes_to_bn (sig_s this) \<le> Curve_N \<longrightarrow> bytes_to_bn (sig_s res) \<le> Curve_N_DIV_2)"
proof -
  have len: "length (signature this) = 64"
    using assms by (auto simp: new_Secp256k1EcdsaSignature_def SECP256K1_ECDSA_SIGNATURE_LENGTH_def
        split: if_splits)
  note p = sig_parts[OF len]
  obtain negS where negS: "length negS = 32"
     "bytes_to_bn negS = (Curve_N - bytes_to_bn (sig_s this)) mod Curve_N"
     "normalizeS this = (if bytes_to_bn (sig_s this) > Curve_N_DIV_2
                then Inr (Secp256k1EcdsaSignature (sig_r this @ negS)) else Inr this)"
    using normalizeS_cases[OF len] by blast
  show ?thesis
  proof (cases "bytes_to_bn (sig_s this) > Curve_N_DIV_2")
    case False
    then show ?thesis using negS(3) len by simp
  next
    case True
    let ?res = "Secp256k1EcdsaSignature (sig_r this @ negS)"
    have r: "normalizeS this = Inr ?res" using True negS(3) by simp
    have parts: "sig_r ?res = sig_r this" "sig_s ?res = negS"
      using sig_of_parts[OF p(1) negS(1)] by simp_all
    have bound: "bytes_to_bn (sig_s this) \<le> Curve_N \<longrightarrow> bytes_to_bn negS \<le> Curve_N_DIV_2"
    proof
      assume le: "bytes_to_bn (sig_s this) \<le> Curve_N"
      show "bytes_to_bn negS \<le> Curve_N_DIV_2"
      proof (cases "bytes_to_bn (sig_s this) = Curve_N")
        case True
        then show ?thesis using negS(2) by (simp add: Curve_N_DIV_2_def Curve_N_def)
      next
        case False
        then have "0 \<le> Curve_N - bytes_to_bn (sig_s this)" "Curve_N - bytes_to_bn (sig_s this) < Curve_N"
          using le True Curve_N_odd by auto
        then have "(Curve_N - bytes_to_bn (sig_s this)) mod Curve_N = Curve_N - bytes_to_bn (sig_s this)"
          by (rule mod_pos_pos_trivial)
        then have "bytes_to_bn negS = Curve_N - bytes_to_bn (sig_s this)"
          using negS(2) by (simp only:)
        then show ?thesis using True Curve_N_odd by simp
      qed
    qed
    show ?thesis
      using r parts bound negS(1,2) p(1) True by simp
  qed
qed

theorem normalizeS_result_witness:
  "new_Secp256k1EcdsaSignature (signature sig_high) = Inr sig_high \<and>
   bytes_to_bn (sig_s sig_high) > Curve_N_DIV_2 \<and>
   bytes_to_bn (sig_s sig_high) \<le> Curve_N \<and>
   normalizeS sig_high = Inr sig_low \<and>
   length (signature sig_low) = 64 \<and>
   sig_r sig_low = sig_r sig_high \<and>
   bytes_to_bn (sig_s sig_low) = (Curve_N - bytes_to_bn (sig_s sig_high)) mod Curve_N \<and>
   bytes_to_bn (sig_s sig_low) \<le> Curve_N_DIV_2"
proof -
  have 1: "new_Secp256k1EcdsaSignature (signature sig_high) = Inr sig_high" by code_simp
  have 2: "bytes_to_bn (sig_s sig_high) \<le> Curve_N" by code_simp
  have 3: "bytes_to_bn (sig_s sig_high) > Curve_N_DIV_2" by code_simp
  have 4: "normalizeS sig_high = Inr sig_low" by code_simp
  show ?thesis using 1 2 3 4 normalizeS_result[OF 1] by auto
qed

text \<open>
  The bound claimed for every signature fails when \<open>s\<close> encodes \<open>Curve_N + 1\<close>: the scalar
  is first reduced to 1, and the result's \<open>s\<close> is \<open>Curve_N - 1\<close>.
\<close>

theorem normalizeS_bound_counterexample:
  "new_Secp256k1EcdsaSignature (signature sig_over) = Inr sig_over \<and>
   normalizeS sig_over = Inr sig_high \<and>
   \<not> bytes_to_bn (sig_s sig_high) \<le> Curve_N_DIV_2"
  by code_simp

text \<open>
  C6, as amended: \<^verbatim>\<open>normalizeS\<close> is idempotent on every constructed signature whose \<open>s\<close> is
  at most \<open>Curve_N\<close>: normalising the result again returns the same bytes.
\<close>

theorem normalizeS_idempotent:
  assumes "new_Secp256k1EcdsaSignature sigbytes = Inr this"
    and "bytes_to_bn (sig_s this) \<le> Curve_N"
  shows "\<exists>res res2. normalizeS this = Inr res \<and> normalizeS res = Inr res2 \<and>
           signature res2 = signature res"
proof -
  have len: "length (signature this) = 64"
    using assms(1) by (auto simp: new_Secp256k1EcdsaSignature_def SECP256K1_ECDSA_SIGNATURE_LENGTH_def
        split: if_splits)
  note p = sig_parts[OF len]
  obtain negS where negS: "length negS = 32"
     "bytes_to_bn negS = (Curve_N - bytes_to_bn (sig_s this)) mod Curve_N"
     "normalizeS this = (if bytes_to_bn (sig_s this) > Curve_N_DIV_2
                then Inr (Secp256k1EcdsaSignature (sig_r this @ negS)) else Inr this)"
    using normalizeS_cases[OF len] by blast
  show ?thesis
  proof (cases "bytes_to_bn (sig_s this) > Curve_N_DIV_2")
    case False
    then have "normalizeS this = Inr this" using negS(3) by simp
    then show ?thesis by simp
  next
    case True
    let ?res = "Secp256k1EcdsaSignature (sig_r this @ negS)"
    have r: "normalizeS this = Inr ?res" using True negS(3) by simp
    have len2: "length (signature ?res) = 64" using p(1) negS(1) by simp
    have s2: "sig_s ?res = negS" using sig_of_parts[OF p(1) negS(1)] by simp
    have low: "bytes_to_bn negS \<le> Curve_N_DIV_2"
    proof (cases "bytes_to_bn (sig_s this) = Curve_N")
      case True
      then show ?thesis using negS(2) by (simp add: Curve_N_DIV_2_def Curve_N_def)
    next
      case False
      then have "0 \<le> Curve_N - bytes_to_bn (sig_s this)" "Curve_N - bytes_to_bn (sig_s this) < Curve_N"
        using assms(2) True Curve_N_odd by auto
      then have "(Curve_N - bytes_to_bn (sig_s this)) mod Curve_N = Curve_N - bytes_to_bn (sig_s this)"
        by (rule mod_pos_pos_trivial)
      then have "bytes_to_bn negS = Curve_N - bytes_to_bn (sig_s this)"
        using negS(2) by (simp only:)
      then show ?thesis using True Curve_N_odd by simp
    qed
    obtain negS2 where "normalizeS ?res = (if bytes_to_bn (sig_s ?res) > Curve_N_DIV_2
                then Inr (Secp256k1EcdsaSignature (sig_r ?res @ negS2)) else Inr ?res)"
      using normalizeS_cases[OF len2] by blast
    then have "normalizeS ?res = Inr ?res" using low s2 by simp
    then show ?thesis using r by simp
  qed
qed

theorem normalizeS_idempotent_witness:
  "new_Secp256k1EcdsaSignature (signature sig_high) = Inr sig_high \<and>
   bytes_to_bn (sig_s sig_high) \<le> Curve_N \<and>
   normalizeS sig_high = Inr sig_low \<and>
   (\<exists>res2. normalizeS sig_low = Inr res2 \<and> signature res2 = signature sig_low)"
proof -
  have 1: "new_Secp256k1EcdsaSignature (signature sig_high) = Inr sig_high" by code_simp
  have 2: "bytes_to_bn (sig_s sig_high) \<le> Curve_N" by code_simp
  have 3: "normalizeS sig_high = Inr sig_low" by code_simp
  show ?thesis using 1 2 3 normalizeS_idempotent[OF 1 2] by auto
qed

text \<open>
  Idempotence fails when \<open>s\<close> encodes \<open>Curve_N + 1\<close>: the first call gives \<open>Curve_N - 1\<close>,
  the second gives 1.
\<close>

theorem normalizeS_idempotent_counterexample:
  "new_Secp256k1EcdsaSignature (signature sig_over) = Inr sig_over \<and>
   normalizeS sig_over = Inr sig_high \<and>
   normalizeS sig_high = Inr sig_low \<and>
   signature sig_low \<noteq> signature sig_high"
  by code_simp

section \<open>Signing with the derived nonce\<close>

lemma rfc6979Generate_fails:
  "rfc6979Generate key_sign privKey message =
     (case key_sign privKey message of
        Inl error \<Rightarrow> Inl error
      | Inr sg \<Rightarrow> Inl (Error ''BN is undefined or null''))"
  by (simp add: rfc6979Generate_def try_rethrow and_then_def property_k_def bnToBytes_def
      split: sum.splits)

text \<open>
  C3: the claim says that \<^verbatim>\<open>sign\<close> succeeds and equals \<^verbatim>\<open>signWithK\<close> at the RFC 6979 nonce. In
  the code \<^verbatim>\<open>rfc6979Generate\<close> never returns a nonce: the property \<^verbatim>\<open>k\<close> it reads does not
  exist on the package's signature object, \<^verbatim>\<open>bnToBytes\<close> rejects \<^verbatim>\<open>undefined\<close>, and \<^verbatim>\<open>sign\<close>
  throws for every private key, message and hash provider.
\<close>

theorem sign_always_throws:
  "\<exists>error. sign ec key_sign hashImpl message privkey = Inl error"
  by (simp add: sign_def Let_def and_then_def rfc6979Generate_fails split: sum.splits)

lemma verify_loop_iff:
  "verify_loop rDigest pointX i n \<longleftrightarrow> (\<forall>j<n. byte_at rDigest (i + j) = byte_at pointX (i + j))"
proof (induction n arbitrary: i)
  case 0
  then show ?case by simp
next
  case (Suc n)
  have "(\<forall>j<Suc n. byte_at rDigest (i + j) = byte_at pointX (i + j)) \<longleftrightarrow>
        byte_at rDigest i = byte_at pointX i \<and>
        (\<forall>j<n. byte_at rDigest (Suc i + j) = byte_at pointX (Suc i + j))"
    by (auto simp: less_Suc_eq_0_disj)
  then show ?case using Suc.IH[of "Suc i"] by simp
qed

text \<open>The multiples by 0 and by 1, for every point.\<close>

lemma ec_mul_0: "ec_mul pt 0 = Infinity"
  by (subst ec_mul.simps) simp

lemma ec_mul_1: "ec_mul pt 1 = pt"
  by (subst ec_mul.simps) (simp add: ec_mul_0 ec_dbl_def ec_add_def)

section \<open>Instances, copies and the receiver\<close>








section \<open>The order of the group is prime\<close>

subsection \<open>Fermat's little theorem\<close>

lemma prime_coprime:
  assumes "is_prime p" "\<not> p dvd a"
  shows "coprime p a"
proof -
  have "gcd p a dvd p" by simp
  then have "gcd p a = 1 \<or> gcd p a = p" using assms(1) by (simp add: is_prime_def)
  moreover have "gcd p a \<noteq> p" using assms(2) by (metis gcd_dvd2)
  ultimately show ?thesis by (simp add: coprime_iff_gcd_eq_1)
qed

lemma prime_dvd_mult:
  assumes "is_prime p" "p dvd a * b"
  shows "p dvd a \<or> p dvd b"
proof (cases "p dvd a")
  case True
  then show ?thesis by simp
next
  case False
  then have "coprime p a" using prime_coprime[OF assms(1)] by simp
  then show ?thesis using assms(2) by (simp add: coprime_dvd_mult_right_iff)
qed

lemma prime_dvd_power:
  assumes "is_prime p" "p dvd a ^ n"
  shows "p dvd a"
  using assms(2)
proof (induction n)
  case 0
  then show ?case using assms(1) by (simp add: is_prime_def)
next
  case (Suc n)
  then show ?case using prime_dvd_mult[OF assms(1), of a "a ^ n"] by auto
qed

lemma prime_dvd_choose:
  assumes "is_prime p" "0 < k" "k < p"
  shows "p dvd (p choose k)"
proof -
  obtain n where p: "p = Suc n" using assms(2,3) by (cases p) auto
  obtain j where k: "k = Suc j" using assms(2) by (cases k) auto
  have "Suc n dvd Suc j * (Suc n choose Suc j)"
    unfolding Suc_times_binomial by (rule dvd_triv_left)
  then have "p dvd k * (p choose k)" by (simp only: p k)
  moreover have "\<not> p dvd k" using assms(2,3) by (auto dest: dvd_imp_le)
  ultimately show ?thesis using prime_dvd_mult[OF assms(1)] by blast
qed

lemma fermat_step:
  assumes "is_prime p"
  shows "(a + 1) ^ p mod p = (a ^ p + 1) mod p"
proof -
  have p1: "1 < p" using assms by (simp add: is_prime_def)
  have split: "{..p} = insert 0 (insert p {1..<p})" using p1 by auto
  have "(a + 1) ^ p = (\<Sum>k\<le>p. (p choose k) * a ^ k)"
    using binomial_ring[of a 1 p] by simp
  also have "\<dots> = 1 + a ^ p + (\<Sum>k\<in>{1..<p}. (p choose k) * a ^ k)"
    using p1 by (simp add: split)
  finally have e: "(a + 1) ^ p = 1 + a ^ p + (\<Sum>k\<in>{1..<p}. (p choose k) * a ^ k)" .
  have "p dvd (p choose k) * a ^ k" if "k \<in> {1..<p}" for k
    using prime_dvd_choose[OF assms, of k] that by (intro dvd_mult2) simp
  then have "p dvd (\<Sum>k\<in>{1..<p}. (p choose k) * a ^ k)"
    by (rule dvd_sum)
  then have "(\<Sum>k\<in>{1..<p}. (p choose k) * a ^ k) mod p = 0" by simp
  then have "(1 + a ^ p + (\<Sum>k\<in>{1..<p}. (p choose k) * a ^ k)) mod p = (1 + a ^ p) mod p"
    by (subst mod_add_right_eq[symmetric]) simp
  then have "(a + 1) ^ p mod p = (1 + a ^ p) mod p" by (simp only: e)
  then show ?thesis by (simp only: add.commute[of 1])
qed

lemma fermat_power: "is_prime p \<Longrightarrow> a ^ p mod p = a mod p"
proof (induction a)
  case 0
  then have "0 < p" by (simp add: is_prime_def)
  then show ?case by (simp add: zero_power)
next
  case (Suc a)
  have "(Suc a) ^ p mod p = (a ^ p + 1) mod p"
    using fermat_step[OF Suc.prems, of a] by simp
  also have "\<dots> = (a ^ p mod p + 1) mod p" by (simp add: mod_simps)
  also have "\<dots> = (a mod p + 1) mod p" using Suc by simp
  also have "\<dots> = Suc a mod p" by (simp add: mod_simps)
  finally show ?case .
qed

lemma fermat_little:
  assumes "is_prime p" "\<not> p dvd a"
  shows "a ^ (p - 1) mod p = 1"
proof -
  have p1: "1 < p" using assms(1) by (simp add: is_prime_def)
  have a0: "0 < a" using assms(2) by (cases a) auto
  obtain n where p: "p = Suc n" using p1 by (cases p) auto
  have le: "a \<le> a ^ p" using a0 p by simp
  have "a ^ p mod p = a mod p" using fermat_power[OF assms(1)] .
  then have "p dvd a ^ p - a" using mod_eq_dvd_iff_nat[OF le, of p] by simp
  moreover have "a ^ p - a = a * (a ^ (p - 1) - 1)"
    by (simp add: p algebra_simps)
  ultimately have "p dvd a ^ (p - 1) - 1"
    using prime_dvd_mult[OF assms(1), of a "a ^ (p - 1) - 1"] assms(2) by simp
  moreover have "1 \<le> a ^ (p - 1)" using a0 by simp
  ultimately have "a ^ (p - 1) mod p = 1 mod p"
    using mod_eq_dvd_iff_nat[of 1 "a ^ (p - 1)" p] by simp
  then show ?thesis using p1 by simp
qed

subsection \<open>Pocklington's criterion\<close>

text \<open>
  If \<open>q\<close> is a prime factor of \<open>n - 1\<close> and the two conditions hold for some base, then
  every prime factor of \<open>n\<close> is 1 modulo \<open>q\<close>. A composite \<open>n\<close> has a prime factor whose
  square is at most \<open>n\<close>, so \<open>n\<close> is prime when \<open>n < (q + 1)\<^sup>2\<close>; with two prime factors
  \<open>q\<close> and \<open>r\<close> of \<open>n - 1\<close>, when \<open>n < (q * r + 1)\<^sup>2\<close>.
\<close>

lemma power_gcd_one:
  fixes b p x y :: nat
  assumes p1: "1 < p" and x0: "x \<noteq> 0"
    and bx: "b ^ x mod p = 1" and by': "b ^ y mod p = 1"
  shows "b ^ gcd x y mod p = 1"
proof -
  obtain u v where uv: "x * u = y * v + gcd x y"
    using bezout_nat[OF x0, of y] by blast
  have "b ^ (x * u) mod p = (b ^ x mod p) ^ u mod p"
    by (simp add: power_mult power_mod)
  then have l: "b ^ (x * u) mod p = 1" using bx p1 by simp
  have "b ^ (y * v) mod p = (b ^ y mod p) ^ v mod p"
    by (simp add: power_mult power_mod)
  then have r: "b ^ (y * v) mod p = 1" using by' p1 by simp
  have "b ^ (x * u) mod p = (b ^ (y * v) mod p * (b ^ gcd x y mod p)) mod p"
    by (simp add: uv power_add mod_mult_eq)
  then show ?thesis using l r by simp
qed

lemma pocklington_step:
  fixes n q m a p :: nat
  assumes q: "is_prime q" and p: "is_prime p" and pn: "p dvd n"
    and nm: "n - 1 = q * m" and n1: "1 < n"
    and a1: "a ^ (n - 1) mod n = 1"
    and c: "coprime (a ^ m - 1) n"
  shows "q dvd p - 1"
proof -
  have p1: "1 < p" using p by (simp add: is_prime_def)
  have q1: "1 < q" using q by (simp add: is_prime_def)
  define b where "b = a ^ m"
  have "a ^ (n - 1) mod p = (a ^ (n - 1) mod n) mod p"
    using pn by (simp add: mod_mod_cancel)
  then have an: "a ^ (n - 1) mod p = 1" using a1 p1 by simp
  have "b ^ q = a ^ (n - 1)"
    unfolding b_def nm by (simp add: power_mult[symmetric] mult.commute)
  then have bq: "b ^ q mod p = 1"
    using an by (simp only:)
  have npa: "\<not> p dvd a"
  proof
    assume "p dvd a"
    moreover have "0 < n - 1" using n1 by simp
    ultimately have "p dvd a ^ (n - 1)" by (meson dvd_power dvd_trans)
    then have "a ^ (n - 1) mod p = 0" by simp
    then show False using an by simp
  qed
  have npb: "\<not> p dvd b"
    using prime_dvd_power[OF p, of a m] npa by (auto simp: b_def)
  have bp: "b ^ (p - 1) mod p = 1" using fermat_little[OF p npb] .
  have g: "b ^ gcd q (p - 1) mod p = 1"
    using power_gcd_one[OF p1 _ bq bp] q1 by simp
  have "gcd q (p - 1) dvd q" by simp
  then have "gcd q (p - 1) = 1 \<or> gcd q (p - 1) = q"
    using q by (simp add: is_prime_def)
  moreover have "gcd q (p - 1) \<noteq> 1"
  proof
    assume "gcd q (p - 1) = 1"
    then have "b mod p = 1" using g by simp
    then have "b mod p = 1 mod p" using p1 by simp
    moreover have "1 \<le> b" using npb by (cases b) auto
    ultimately have "p dvd b - 1" using mod_eq_dvd_iff_nat[of 1 b p] by simp
    then have "p dvd a ^ m - 1" by (simp only: b_def)
    then have "is_unit p" using coprime_common_divisor[OF c _ pn] by blast
    then have "p = 1" by simp
    then show False using p1 by simp
  qed
  ultimately have "gcd q (p - 1) = q" by simp
  then show ?thesis by (metis gcd_dvd2)
qed

lemma prime_factor: "1 < n \<Longrightarrow> \<exists>p. is_prime p \<and> p dvd n"
proof (induction n rule: less_induct)
  case (less n)
  show ?case
  proof (cases "is_prime n")
    case True
    then show ?thesis by auto
  next
    case False
    then obtain d where d: "d dvd n" "d \<noteq> 1" "d \<noteq> n"
      using less.prems by (auto simp: is_prime_def)
    have "d \<noteq> 0" using d(1) less.prems by (cases "d = 0") auto
    moreover have "d \<le> n" using d(1) less.prems by (intro dvd_imp_le) simp_all
    ultimately have "1 < d" "d < n" using d(2,3) by simp_all
    then obtain p where "is_prime p" "p dvd d" using less.IH by blast
    then show ?thesis using d(1) by (auto intro: dvd_trans)
  qed
qed

lemma small_factor:
  assumes "1 < n" "\<not> is_prime n"
  shows "\<exists>p. is_prime p \<and> p dvd n \<and> p * p \<le> n"
proof -
  obtain d where d: "d dvd n" "d \<noteq> 1" "d \<noteq> n"
    using assms by (auto simp: is_prime_def)
  then obtain e where e: "n = d * e" by (auto elim: dvdE)
  have "0 < d * e" using assms(1) unfolding e by arith
  then have d0: "d \<noteq> 0" "e \<noteq> 0" by auto
  have e1: "e \<noteq> 1" using d(3) e by simp
  have d1: "1 < d" "1 < e" using d0 d(2) e1 by auto
  show ?thesis
  proof (cases "d \<le> e")
    case True
    obtain p where p: "is_prime p" "p dvd d" using prime_factor[OF d1(1)] by blast
    have "p \<le> d" using p(2) d0 by (auto dest: dvd_imp_le)
    then have "p * p \<le> d * e" using True by (meson mult_le_mono order_trans)
    then show ?thesis using p e by (auto intro: dvd_mult2)
  next
    case False
    obtain p where p: "is_prime p" "p dvd e" using prime_factor[OF d1(2)] by blast
    have "p \<le> e" using p(2) d0 by (auto dest: dvd_imp_le)
    then have "p * p \<le> d * e" using False by (meson mult_le_mono nat_le_linear order_trans)
    then show ?thesis using p e by (auto intro: dvd_mult)
  qed
qed

lemma pocklington_one:
  fixes n q m a :: nat
  assumes "is_prime q" "n - 1 = q * m" "1 < n" "n < (q + 1) * (q + 1)"
    and "a ^ (n - 1) mod n = 1" "coprime (a ^ m - 1) n"
  shows "is_prime n"
proof (rule ccontr)
  assume "\<not> is_prime n"
  then obtain p where p: "is_prime p" "p dvd n" "p * p \<le> n"
    using small_factor[OF assms(3)] by blast
  have "q dvd p - 1" using pocklington_step[OF assms(1) p(1,2) assms(2,3,5,6)] .
  moreover have p1: "1 < p" using p(1) by (simp add: is_prime_def)
  ultimately have "q \<le> p - 1" by (auto dest: dvd_imp_le)
  moreover have "p - 1 < p" using p1 by simp
  ultimately have "q < p" by (rule le_less_trans)
  then have h: "q + 1 \<le> p" by simp
  have "(q + 1) * (q + 1) \<le> p * p" by (rule mult_le_mono[OF h h])
  then show False using p(3) assms(4) by simp
qed

lemma pocklington_two:
  fixes n q r m k a b :: nat
  assumes "is_prime q" "is_prime r" "q \<noteq> r"
    and "n - 1 = q * m" "n - 1 = r * k" "1 < n" "n < (q * r + 1) * (q * r + 1)"
    and "a ^ (n - 1) mod n = 1" "coprime (a ^ m - 1) n"
    and "b ^ (n - 1) mod n = 1" "coprime (b ^ k - 1) n"
  shows "is_prime n"
proof (rule ccontr)
  assume "\<not> is_prime n"
  then obtain p where p: "is_prime p" "p dvd n" "p * p \<le> n"
    using small_factor[OF assms(6)] by blast
  have 1: "q dvd p - 1" using pocklington_step[OF assms(1) p(1,2) assms(4,6,8,9)] .
  have 2: "r dvd p - 1" using pocklington_step[OF assms(2) p(1,2) assms(5,6,10,11)] .
  have "\<not> q dvd r"
    using assms(1,2,3) by (auto simp: is_prime_def)
  then have "coprime q r" using prime_coprime[OF assms(1)] by simp
  then have "q * r dvd p - 1" using 1 2 by (simp add: divides_mult)
  moreover have p1: "1 < p" using p(1) by (simp add: is_prime_def)
  ultimately have "q * r \<le> p - 1" by (auto dest: dvd_imp_le)
  moreover have "p - 1 < p" using p1 by simp
  ultimately have "q * r < p" by (rule le_less_trans)
  then have h: "q * r + 1 \<le> p" by simp
  have "(q * r + 1) * (q * r + 1) \<le> p * p"
    by (rule mult_le_mono[OF h h])
  then show False using p(3) assms(7) by simp
qed

subsection \<open>The computations are sound\<close>

lemma modpow_power:
  "\<forall>x. red x mod n = x mod n \<Longrightarrow> 0 \<le> e \<Longrightarrow>
   modpow red a e mod n = a ^ nat e mod n"
proof (induction red a e rule: modpow.induct)
  case (1 red a e)
  have red: "red x mod n = x mod n" for x using "1.prems"(1) by simp
  have e0: "0 \<le> e" using "1.prems"(2) .
  show ?case
  proof (cases "e \<le> 0")
    case True
    then have "e = 0" using e0 by simp
    then show ?thesis by (subst modpow.simps) simp
  next
    case False
    define h where "h = e div 2"
    define v where "v = modpow red a h"
    have h0: "0 \<le> h" using e0 by (simp add: h_def)
    have split: "e = 2 * h + e mod 2" unfolding h_def by simp
    have sqv: "sq v mod n = (a ^ nat h * a ^ nat h) mod n" if "v mod n = a ^ nat h mod n"
    proof -
      have "sq v mod n = (v mod n * (v mod n)) mod n"
        unfolding sq_def by (rule mod_mult_eq[symmetric])
      also have "\<dots> = (a ^ nat h * a ^ nat h) mod n"
        unfolding that by (rule mod_mult_eq)
      finally show ?thesis .
    qed
    show ?thesis
    proof (cases "e mod 2 = 0")
      case True
      have ih: "v mod n = a ^ nat h mod n"
        using "1.IH"(1)[OF False True "1.prems"(1)] h0 by (simp add: h_def v_def)
      have "e = h + h" using split True by simp
      then have e: "nat e = nat h + nat h" using h0 by (simp add: nat_add_distrib)
      have "modpow red a e = red (sq v)"
        using False True by (subst modpow.simps) (simp add: h_def v_def)
      then have "modpow red a e mod n = sq v mod n" by (simp only: red)
      also have "\<dots> = (a ^ nat h * a ^ nat h) mod n" by (rule sqv[OF ih])
      also have "\<dots> = a ^ nat e mod n"
        by (simp only: e power_add)
      finally show ?thesis .
    next
      case odd: False
      have ih: "v mod n = a ^ nat h mod n"
        using "1.IH"(2)[OF False odd "1.prems"(1)] h0 by (simp add: h_def v_def)
      have "e mod 2 = 1" using odd by presburger
      then have "e = h + h + 1" using split by simp
      then have e: "nat e = Suc (nat h + nat h)" using h0 by (simp add: nat_add_distrib)
      have "modpow red a e = red (red (sq v) * a)"
        using False odd by (subst modpow.simps) (simp add: h_def v_def)
      then have "modpow red a e mod n = (red (sq v) * a) mod n" by (simp only: red)
      also have "\<dots> = (red (sq v) mod n * a) mod n"
        by (rule mod_mult_left_eq[symmetric])
      also have "\<dots> = ((a ^ nat h * a ^ nat h) mod n * a) mod n"
        by (simp only: red sqv[OF ih])
      also have "\<dots> = (a ^ nat h * a ^ nat h * a) mod n"
        by (rule mod_mult_left_eq)
      also have "\<dots> = a ^ nat e mod n"
        by (simp only: e power_add power_Suc mult.commute)
      finally show ?thesis .
    qed
  qed
qed

lemma trial_no_divisor:
  "trial n d \<Longrightarrow> 2 \<le> d \<Longrightarrow> d \<le> e \<Longrightarrow> e * e \<le> n \<Longrightarrow> \<not> e dvd n"
proof (induction n d rule: trial.induct)
  case (1 n d)
  have dd: "d * d \<le> e * e" using 1(3,4) by (intro mult_mono) simp_all
  then have nlt: "\<not> n < d * d" using 1(5) by simp
  have nz: "n mod d \<noteq> 0"
    using 1(2) nlt by (subst (asm) trial.simps) (simp split: if_splits)
  have t: "trial n (d + 1)"
    using 1(2) nlt nz by (subst (asm) trial.simps) simp
  show ?case
  proof (cases "e = d")
    case True
    then show ?thesis using nz by (simp add: dvd_eq_mod_eq_0)
  next
    case False
    then have "d + 1 \<le> e" using 1(4) by simp
    then show ?thesis using 1(1)[OF nlt nz t] 1(3,5) by simp
  qed
qed

lemma trial_prime:
  assumes "trial n 2" "1 < n"
  shows "is_prime (nat n)"
proof (rule ccontr)
  assume "\<not> is_prime (nat n)"
  moreover have "1 < nat n" using assms(2) by simp
  ultimately obtain p where p: "is_prime p" "p dvd nat n" "p * p \<le> nat n"
    using small_factor by blast
  have p2: "2 \<le> int p" using p(1) by (simp add: is_prime_def)
  have "int (p * p) \<le> int (nat n)" using p(3) by (simp only: of_nat_le_iff)
  then have "int p * int p \<le> n" using assms(2) by simp
  then have "\<not> int p dvd n" using trial_no_divisor[OF assms(1) _ p2] by simp
  moreover have "int p dvd n" using p(2) assms(2) by (simp add: int_dvd_int_iff[symmetric])
  ultimately show False by simp
qed

lemma barrett_red_mod: "barrett_red k mu n x mod n = x mod n"
proof -
  have "barrett_red k mu n x = x + (- drop_bit (k + 5) (drop_bit (k - 1) x * mu)) * n"
    by (simp add: barrett_red_def)
  then show ?thesis by (simp only: mod_mult_self1)
qed

lemma barrett_mod: "\<forall>x. barrett n k x mod n = x mod n"
  by (simp add: barrett_def barrett_red_mod)

lemma fold_red_mod: "fold_red k c x mod (2 ^ k - c) = x mod (2 ^ k - c)"
proof -
  have "fold_red k c x = x + (- drop_bit k x) * (2 ^ k - c)"
    by (simp add: fold_red_def fold_step_def push_bit_eq_mult algebra_simps)
  then show ?thesis by (simp only: mod_mult_self1)
qed

lemma check_nat:
  assumes red: "\<forall>x. red x mod n = x mod n"
    and fc: "fermat_check red n a"
  shows "1 < nat n" "nat a ^ (nat n - 1) mod nat n = 1"
proof -
  have a: "0 < a" and n: "1 < n" and f: "modpow red a (n - 1) mod n = 1"
    using fc by (simp_all add: fermat_check_def)
  show "1 < nat n" using n by simp
  have e: "nat (n - 1) = nat n - 1" using n by (simp add: nat_diff_distrib)
  have ia: "int (nat a) = a" using a by simp
  have inn: "int (nat n) = n" using n by simp
  have "a ^ nat (n - 1) mod n = 1" using modpow_power[OF red, of "n - 1" a] f n by simp
  then have "int (nat a ^ (nat n - 1) mod nat n) = 1"
    by (simp only: zmod_int of_nat_power ia inn e)
  then show "nat a ^ (nat n - 1) mod nat n = 1" by simp
qed

lemma order_nat:
  assumes red: "\<forall>x. red x mod n = x mod n"
    and fc: "fermat_check red n a" and oc: "order_check red n q a"
  shows "nat n - 1 = nat q * nat ((n - 1) div q)"
    "coprime (nat a ^ nat ((n - 1) div q) - 1) (nat n)"
proof -
  define m where "m = (n - 1) div q"
  have a: "0 < a" and n: "1 < n" using fc by (simp_all add: fermat_check_def)
  have q: "0 < q" and d: "(n - 1) mod q = 0" and g: "gcd (modpow red a m mod n - 1) n = 1"
    using oc by (simp_all add: order_check_def m_def)
  have nm: "n - 1 = q * m" using d unfolding m_def by (simp add: mod_eq_0_iff_dvd)
  have m0: "0 \<le> m" using q n unfolding m_def by (simp add: pos_imp_zdiv_nonneg_iff)
  have "nat (n - 1) = nat q * nat m" unfolding nm using q by (simp add: nat_mult_distrib)
  then show "nat n - 1 = nat q * nat ((n - 1) div q)" using n by (simp add: m_def nat_diff_distrib)
  have ia: "int (nat a) = a" using a by simp
  have inn: "int (nat n) = n" using n by simp
  define A where "A = a ^ nat m"
  have "modpow red a m mod n = A mod n" using modpow_power[OF red m0] by (simp add: A_def)
  then have "gcd (A mod n - 1) n = 1" using g by simp
  moreover have "gcd (A mod n - 1) n = gcd n ((A mod n - 1) mod n)"
    by (rule gcd_red_int)
  moreover have "(A mod n - 1) mod n = (A - 1) mod n" by (rule mod_diff_left_eq)
  moreover have "gcd (A - 1) n = gcd n ((A - 1) mod n)" by (rule gcd_red_int)
  ultimately have "gcd (A - 1) n = 1" by (simp only:)
  then have c: "coprime (A - 1) n" by (simp only: coprime_iff_gcd_eq_1)
  have "1 \<le> nat a ^ nat m" using a by simp
  then have "int (nat a ^ nat m - 1) = int (nat a) ^ nat m - 1"
    by (simp only: of_nat_diff of_nat_power of_nat_1)
  then have "int (nat a ^ nat m - 1) = A - 1"
    by (simp only: ia A_def)
  then have "coprime (int (nat a ^ nat m - 1)) (int (nat n))" using c inn by simp
  then show "coprime (nat a ^ nat ((n - 1) div q) - 1) (nat n)"
    by (simp only: coprime_int_iff m_def)
qed

lemma pock_one:
  assumes "is_prime (nat q)" and red: "\<forall>x. red x mod n = x mod n"
    and fc: "fermat_check red n a" and oc: "order_check red n q a"
    and "n < (q + 1) * (q + 1)"
  shows "is_prime (nat n)"
proof -
  have q: "0 < q" using oc by (simp add: order_check_def)
  have n: "1 < n" using fc by (simp add: fermat_check_def)
  have "nat n < nat ((q + 1) * (q + 1))" using assms(5) n by simp
  moreover have "nat ((q + 1) * (q + 1)) = (nat q + 1) * (nat q + 1)"
    using q by (simp add: nat_mult_distrib nat_add_distrib)
  ultimately have b: "nat n < (nat q + 1) * (nat q + 1)" by (simp only:)
  show ?thesis
    using pocklington_one[OF assms(1) order_nat(1)[OF red fc oc] check_nat(1)[OF red fc] b
        check_nat(2)[OF red fc] order_nat(2)[OF red fc oc]] .
qed

lemma pock_two:
  assumes "is_prime (nat q)" "is_prime (nat r)" "q \<noteq> r"
    and red: "\<forall>x. red x mod n = x mod n"
    and fc: "fermat_check red n a"
    and oq: "order_check red n q a" and or: "order_check red n r a"
    and "n < (q * r + 1) * (q * r + 1)"
  shows "is_prime (nat n)"
proof -
  have q: "0 < q" using oq by (simp add: order_check_def)
  have r: "0 < r" using or by (simp add: order_check_def)
  have n: "1 < n" using fc by (simp add: fermat_check_def)
  have ne: "nat q \<noteq> nat r" using assms(3) q r by simp
  have "nat n < nat ((q * r + 1) * (q * r + 1))" using assms(8) n by simp
  moreover have "nat ((q * r + 1) * (q * r + 1)) = (nat q * nat r + 1) * (nat q * nat r + 1)"
    using q r by (simp add: nat_mult_distrib nat_add_distrib)
  ultimately have b: "nat n < (nat q * nat r + 1) * (nat q * nat r + 1)" by (simp only:)
  show ?thesis
    using pocklington_two[OF assms(1,2) ne order_nat(1)[OF red fc oq]
        order_nat(1)[OF red fc or] check_nat(1)[OF red fc] b
        check_nat(2)[OF red fc] order_nat(2)[OF red fc oq]
        check_nat(2)[OF red fc] order_nat(2)[OF red fc or]] .
qed

subsection \<open>The certificate\<close>

text \<open>
  \<open>Curve_N - 1\<close> is divisible by the primes 341948486974166000522343609283189 and
  174723607534414371449, whose product exceeds the square root of \<open>Curve_N\<close>. Their
  primality is established in the same way, down to primes small enough for trial
  division. The base is 2 throughout.
\<close>

lemma Curve_N_red_mod: "\<forall>x. Curve_N_red x mod Curve_N = x mod Curve_N"
proof -
  have n: "Curve_N = 2 ^ 256 - 432420386565659656852420866394968145599"
    by (simp add: Curve_N_def)
  show ?thesis
    unfolding Curve_N_red_def n by (intro allI) (simp only: fold_red_mod)
qed

lemma prime_1871: "is_prime 1871"
proof -
  have "trial 1871 2" by code_simp
  then show ?thesis using trial_prime[of 1871] by simp
qed

lemma prime_28181: "is_prime 28181"
proof -
  have "trial 28181 2" by code_simp
  then show ?thesis using trial_prime[of 28181] by simp
qed

lemma prime_9349: "is_prime 9349"
proof -
  have "trial 9349 2" by code_simp
  then show ?thesis using trial_prime[of 9349] by simp
qed

lemma prime_120233: "is_prime 120233"
proof -
  have "trial 120233 2" by code_simp
  then show ?thesis using trial_prime[of 120233] by simp
qed

lemma fermat_1627771: "fermat_check (barrett 1627771 21) 1627771 2"
  unfolding fermat_check_def by code_simp

lemma order_1627771: "order_check (barrett 1627771 21) 1627771 1871 2"
  unfolding order_check_def by code_simp

lemma prime_1627771: "is_prime 1627771"
  using pock_one[OF _ barrett_mod fermat_1627771 order_1627771] prime_1871 by simp

lemma fermat_297159362677: "fermat_check (barrett 297159362677 39) 297159362677 2"
  unfolding fermat_check_def by code_simp

lemma order_297159362677: "order_check (barrett 297159362677 39) 297159362677 1627771 2"
  unfolding order_check_def by code_simp

lemma prime_297159362677: "is_prime 297159362677"
  using pock_one[OF _ barrett_mod fermat_297159362677 order_297159362677] prime_1627771 by simp

lemma fermat_545358713: "fermat_check (barrett 545358713 30) 545358713 2"
  unfolding fermat_check_def by code_simp

lemma order_545358713: "order_check (barrett 545358713 30) 545358713 28181 2"
  unfolding order_check_def by code_simp

lemma prime_545358713: "is_prime 545358713"
  using pock_one[OF _ barrett_mod fermat_545358713 order_545358713] prime_28181 by simp

lemma fermat_44706919: "fermat_check (barrett 44706919 26) 44706919 2"
  unfolding fermat_check_def by code_simp

lemma order_44706919: "order_check (barrett 44706919 26) 44706919 9349 2"
  unfolding order_check_def by code_simp

lemma prime_44706919: "is_prime 44706919"
  using pock_one[OF _ barrett_mod fermat_44706919 order_44706919] prime_9349 by simp

lemma fermat_r1: "fermat_check (barrett 29047611873442575647497758179 95) 29047611873442575647497758179 2"
  unfolding fermat_check_def by code_simp

lemma order_r1_a: "order_check (barrett 29047611873442575647497758179 95) 29047611873442575647497758179 297159362677 2"
  unfolding order_check_def by code_simp

lemma order_r1_b: "order_check (barrett 29047611873442575647497758179 95) 29047611873442575647497758179 545358713 2"
  unfolding order_check_def by code_simp

lemma prime_r1: "is_prime 29047611873442575647497758179"
  using pock_two[OF _ _ _ barrett_mod fermat_r1 order_r1_a order_r1_b]
    prime_297159362677 prime_545358713 by simp

lemma fermat_q1: "fermat_check (barrett 341948486974166000522343609283189 109) 341948486974166000522343609283189 2"
  unfolding fermat_check_def by code_simp

lemma order_q1: "order_check (barrett 341948486974166000522343609283189 109) 341948486974166000522343609283189 29047611873442575647497758179 2"
  unfolding order_check_def by code_simp

lemma prime_q1: "is_prime 341948486974166000522343609283189"
  using pock_one[OF _ barrett_mod fermat_q1 order_q1] prime_r1 by simp

lemma fermat_q2: "fermat_check (barrett 174723607534414371449 68) 174723607534414371449 2"
  unfolding fermat_check_def by code_simp

lemma order_q2_a: "order_check (barrett 174723607534414371449 68) 174723607534414371449 44706919 2"
  unfolding order_check_def by code_simp

lemma order_q2_b: "order_check (barrett 174723607534414371449 68) 174723607534414371449 120233 2"
  unfolding order_check_def by code_simp

lemma prime_q2: "is_prime 174723607534414371449"
  using pock_two[OF _ _ _ barrett_mod fermat_q2 order_q2_a order_q2_b]
    prime_44706919 prime_120233 by simp

lemma fermat_N: "fermat_check Curve_N_red Curve_N 2"
  unfolding fermat_check_def by code_simp

lemma order_N_a: "order_check Curve_N_red Curve_N 341948486974166000522343609283189 2"
  unfolding order_check_def by code_simp

lemma order_N_b: "order_check Curve_N_red Curve_N 174723607534414371449 2"
  unfolding order_check_def by code_simp

lemma Curve_N_prime: "is_prime (nat Curve_N)"
proof -
  have "Curve_N < (341948486974166000522343609283189 * 174723607534414371449 + 1) * (341948486974166000522343609283189 * 174723607534414371449 + 1)"
    by (simp add: Curve_N_def)
  then show ?thesis
    using pock_two[OF _ _ _ Curve_N_red_mod fermat_N order_N_a order_N_b] prime_q1 prime_q2
    by simp
qed

lemma Curve_N_coprime:
  assumes "a mod Curve_N \<noteq> 0"
  shows "coprime a Curve_N"
proof -
  define g where "g = gcd a Curve_N"
  have g0: "0 \<le> g" and ga: "g dvd a" and gn: "g dvd Curve_N" by (simp_all add: g_def)
  have n0: "0 < Curve_N" by (simp add: Curve_N_def)
  have "nat g dvd nat Curve_N" using gn g0 n0 by (simp add: nat_dvd_iff)
  then have "nat g = 1 \<or> nat g = nat Curve_N"
    using Curve_N_prime by (simp add: is_prime_def)
  moreover have "nat g \<noteq> nat Curve_N"
  proof
    assume "nat g = nat Curve_N"
    then have "g = Curve_N" using g0 n0 by simp
    then have "Curve_N dvd a" using ga by simp
    then show False using assms by simp
  qed
  ultimately have "g = 1" using g0 by simp
  then show ?thesis by (simp add: g_def coprime_iff_gcd_eq_1)
qed

section \<open>Signing and verifying\<close>

text \<open>
  The inverse modulo the order: the coefficients of the extended Euclidean algorithm
  satisfy B\'ezout's identity, so \<open>bn_invm\<close> inverts every number coprime to the order.
\<close>

lemma egcd_bezout:
  "0 \<le> a \<Longrightarrow> 0 \<le> b \<Longrightarrow> egcd a b = (g, x, y) \<Longrightarrow> a * x + b * y = g \<and> g = gcd a b"
proof (induction a b arbitrary: g x y rule: egcd.induct)
  case (1 a b)
  show ?case
  proof (cases "a \<le> 0")
    case True
    then have "a = 0" using 1(2) by simp
    then show ?thesis using 1(3,4) by (subst (asm) egcd.simps) auto
  next
    case False
    obtain g' x' y' where r: "egcd (b mod a) a = (g', x', y')"
      by (cases "egcd (b mod a) a") auto
    have nn: "0 \<le> b mod a" using False by simp
    have ih: "(b mod a) * x' + a * y' = g' \<and> g' = gcd (b mod a) a"
      using 1(1)[OF False nn 1(2) r] .
    have res: "g = g'" "x = y' - (b div a) * x'" "y = x'"
      using 1(4) False r by (subst (asm) egcd.simps, simp)+
    have "a * (y' - (b div a) * x') + b * x' = (b mod a) * x' + a * y'"
      by (simp add: algebra_simps minus_div_mult_eq_mod[symmetric])
    moreover have "gcd (b mod a) a = gcd a b"
      by (metis gcd.commute gcd_red_int)
    ultimately show ?thesis using ih res by simp
  qed
qed

lemma Curve_N_gt_1: "1 < Curve_N"
  by (simp add: Curve_N_def)

lemma bn_invm_inverse:
  assumes "0 \<le> a" "coprime a Curve_N"
  shows "(a * bn_invm a Curve_N) mod Curve_N = 1"
proof -
  obtain g x y where r: "egcd a Curve_N = (g, x, y)" by (cases "egcd a Curve_N") auto
  have "a * x + Curve_N * y = g \<and> g = gcd a Curve_N"
    using egcd_bezout[OF assms(1) _ r] Curve_N_pos by simp
  then have "a * x + Curve_N * y = 1" using assms(2) by simp
  then have "(a * x + Curve_N * y) mod Curve_N = 1 mod Curve_N" by simp
  then have "(a * x) mod Curve_N = 1" using Curve_N_gt_1 by simp
  then show ?thesis
    by (simp add: bn_invm_def bn_umod_def r mod_mult_right_eq)
qed

lemma coprime_reduce:
  assumes "coprime a Curve_N"
  shows "coprime (a mod Curve_N) Curve_N" "0 < a mod Curve_N" "a mod Curve_N < Curve_N"
proof -
  show c: "coprime (a mod Curve_N) Curve_N"
    using assms Curve_N_pos by (simp add: coprime_mod_left_iff)
  have "a mod Curve_N \<noteq> 0"
  proof
    assume "a mod Curve_N = 0"
    then have "coprime 0 Curve_N" using c by simp
    then show False using Curve_N_gt_1 by simp
  qed
  then show "0 < a mod Curve_N" using mod_range[of a] by simp
  show "a mod Curve_N < Curve_N" using mod_range by simp
qed

lemma inverse_coprime:
  assumes "(a * b) mod Curve_N = 1"
  shows "coprime b Curve_N"
proof -
  have "coprime ((a * b) mod Curve_N) Curve_N" using assms by simp
  then have "coprime (a * b) Curve_N" using Curve_N_pos by (simp add: coprime_mod_left_iff)
  then show ?thesis by simp
qed

lemma ecdsa_algebra:
  fixes kv ik sv si t :: int
  assumes "(kv * ik) mod Curve_N = 1" "(sv * si) mod Curve_N = 1"
    and "sv = (ik * t) mod Curve_N" "0 \<le> kv" "kv < Curve_N"
  shows "(t * si) mod Curve_N = kv"
proof -
  have "(t * si) mod Curve_N = (((kv * ik) mod Curve_N) * (t * si)) mod Curve_N"
    using assms(1) by simp
  also have "\<dots> = (kv * ik * (t * si)) mod Curve_N"
    by (simp only: mod_mult_left_eq)
  also have "\<dots> = (kv * si * (ik * t)) mod Curve_N"
    by (simp add: algebra_simps)
  also have "\<dots> = (kv * si * ((ik * t) mod Curve_N)) mod Curve_N"
    by (simp only: mod_mult_right_eq)
  also have "\<dots> = (kv * (sv * si)) mod Curve_N"
    unfolding assms(3)[symmetric] by (simp add: algebra_simps)
  also have "\<dots> = (kv * ((sv * si) mod Curve_N)) mod Curve_N"
    by (simp only: mod_mult_right_eq)
  also have "\<dots> = kv" using assms(2,4,5) by simp
  finally show ?thesis .
qed

lemma group_laws_zn: "group_laws zn_group"
proof -
  have v: "zn_value (zn_point a) = a mod Curve_N" for a
    by (simp add: zn_value_def zn_point_def)
  have p: "zn_point a = zn_point b" if "a mod Curve_N = b mod Curve_N" for a b
    using that by (simp add: zn_point_def)
  have 1: "point_add zn_group (g_mul zn_group a) (g_mul zn_group b) = g_mul zn_group ((a + b) mod Curve_N)"
    for a b
    by (auto simp: zn_group_def v intro!: p simp: mod_simps)
  have 2: "point_mul zn_group (g_mul zn_group d) a = g_mul zn_group ((d * a) mod Curve_N)" for d a
    by (auto simp: zn_group_def v intro!: p simp: mod_simps)
  have 3: "\<exists>x y. g_mul zn_group a = Point x y \<and> 0 \<le> x \<and> x < 2 ^ 256 \<and> 0 \<le> y \<and> y < 2 ^ 256
           \<and> curve_point zn_group x y = Point x y" if "0 < a" "a < Curve_N" for a
    using that Curve_N_lt by (simp add: zn_group_def zn_point_def)
  show ?thesis
    unfolding group_laws_def using 1 2 3 by blast
qed

lemma scalar_enc:
  assumes "0 \<le> v" "v < Curve_N"
  shows "bytes_to_bn (bn_hex_bytes v) = v" "toScalar (bn_hex_bytes v) = Some v"
proof -
  show v: "bytes_to_bn (bn_hex_bytes v) = v"
    using bytes_to_bn_hex_bytes[of v] assms Curve_N_lt by simp
  show "toScalar (bn_hex_bytes v) = Some v"
    using toScalar_nonempty[OF bn_hex_bytes_nonempty, of v] v assms by simp
qed

lemma mulModN_enc:
  assumes "a \<noteq> []" "b \<noteq> []"
  shows "mulModN a b = Inr (bn_hex_bytes ((bytes_to_bn a * bytes_to_bn b) mod Curve_N))"
  by (simp only: mulModN_nonempty[OF assms] bnToBytes_def option.case mod_mult_eq)

lemma addModN_enc:
  assumes "a \<noteq> []" "b \<noteq> []"
  shows "addModN a b = Inr (bn_hex_bytes ((bytes_to_bn a + bytes_to_bn b) mod Curve_N))"
  by (simp only: addModN_nonempty[OF assms] bnToBytes_def option.case mod_add_eq)

lemma modInvN_enc:
  assumes "a \<noteq> []"
  shows "modInvN a = Inr (bn_hex_bytes (bn_invm (bytes_to_bn a mod Curve_N) Curve_N))"
  by (simp only: modInvN_nonempty[OF assms] bnToBytes_def option.case)

lemma coprime_nonempty: "coprime (bytes_to_bn k) Curve_N \<Longrightarrow> k \<noteq> []"
  using Curve_N_gt_1 by (auto simp: bytes_to_bn_def)

lemma law_add:
  "group_laws ec \<Longrightarrow> 0 \<le> a \<Longrightarrow> a < Curve_N \<Longrightarrow> 0 \<le> b \<Longrightarrow> b < Curve_N \<Longrightarrow>
   point_add ec (g_mul ec a) (g_mul ec b) = g_mul ec ((a + b) mod Curve_N)"
  unfolding group_laws_def by blast

lemma law_mul:
  "group_laws ec \<Longrightarrow> 0 \<le> d \<Longrightarrow> d < Curve_N \<Longrightarrow> 0 \<le> a \<Longrightarrow> a < Curve_N \<Longrightarrow>
   point_mul ec (g_mul ec d) a = g_mul ec ((d * a) mod Curve_N)"
  unfolding group_laws_def by blast

lemma law_affine:
  assumes "group_laws ec" "0 < a" "a < Curve_N"
  obtains x y where "g_mul ec a = Point x y" "0 \<le> x" "x < 2 ^ 256" "0 \<le> y" "y < 2 ^ 256"
    "curve_point ec x y = Point x y"
  using assms unfolding group_laws_def by blast

lemma point_bytes:
  "pointXToBytes (Point x y) = Inr (bn_hex_bytes x)" "pointYToBytes (Point x y) = Inr (bn_hex_bytes y)"
  by (simp_all add: pointXToBytes_def pointYToBytes_def try_rethrow bnToBytes_def)

lemma verify_loop_refl: "verify_loop rDigest rDigest i n"
  by (simp add: verify_loop_iff)

lemma signWithK_value:
  assumes kne: "k \<noteq> []" and dne: "privkey \<noteq> []"
    and hd: "hashImpl message = Inr h" and hne: "h \<noteq> []"
    and g: "g_mul ec (bytes_to_bn k mod Curve_N) = Point x y" "0 \<le> x" "x < 2 ^ 256"
  shows "signWithK ec hashImpl message k privkey =
           Inr (Secp256k1EcdsaSignature
                  (bn_hex_bytes x @
                   bn_hex_bytes
                     ((bn_invm (bytes_to_bn k mod Curve_N) Curve_N *
                       (bytes_to_bn h + x * bytes_to_bn privkey)) mod Curve_N)))"
proof -
  define rb where "rb = bn_hex_bytes x"
  define ik where "ik = bn_invm (bytes_to_bn k mod Curve_N) Curve_N"
  define p1 where "p1 = (x * bytes_to_bn privkey) mod Curve_N"
  define sm where "sm = (bytes_to_bn h + p1) mod Curve_N"
  define sv where "sv = (ik * sm) mod Curve_N"
  have rbv: "bytes_to_bn rb = x" "rb \<noteq> []" "length rb = 32"
    using bytes_to_bn_hex_bytes[OF g(2,3)] bn_hex_bytes_nonempty length_bn_hex_bytes
    by (simp_all add: rb_def)
  have 1: "mulG ec k = Inr rb"
    by (simp add: mulG_def try_rethrow toScalar_nonempty[OF kne] g(1) point_bytes rb_def)
  have 2: "modInvN k = Inr (bn_hex_bytes ik)"
    by (simp add: modInvN_enc[OF kne] ik_def)
  have ikr: "bytes_to_bn (bn_hex_bytes ik) = ik"
    using scalar_enc(1)[of ik] bn_invm_range by (simp add: ik_def)
  have 3: "mulModN rb privkey = Inr (bn_hex_bytes p1)"
    by (simp add: mulModN_enc[OF rbv(2) dne] rbv(1) p1_def)
  have p1r: "bytes_to_bn (bn_hex_bytes p1) = p1"
    using scalar_enc(1)[of p1] mod_range by (simp add: p1_def)
  have 4: "addModN h (bn_hex_bytes p1) = Inr (bn_hex_bytes sm)"
    by (simp add: addModN_enc[OF hne bn_hex_bytes_nonempty] p1r sm_def)
  have smr: "bytes_to_bn (bn_hex_bytes sm) = sm"
    using scalar_enc(1)[of sm] mod_range by (simp add: sm_def)
  have 5: "mulModN (bn_hex_bytes ik) (bn_hex_bytes sm) = Inr (bn_hex_bytes sv)"
    by (simp add: mulModN_enc[OF bn_hex_bytes_nonempty bn_hex_bytes_nonempty] ikr smr sv_def)
  have 6: "and_then (typed_array_set (replicate 64 0) rb 0) (\<lambda>sig1.
         and_then (typed_array_set sig1 (bn_hex_bytes sv) 32) (\<lambda>sig2.
         new_Secp256k1EcdsaSignature sig2)) = Inr (Secp256k1EcdsaSignature (rb @ bn_hex_bytes sv))"
    using assemble[OF rbv(3) length_bn_hex_bytes] .
  have "signWithK ec hashImpl message k privkey = Inr (Secp256k1EcdsaSignature (rb @ bn_hex_bytes sv))"
    unfolding signWithK_def Let_def hd 1 2
    by (simp add: and_then_def 3 4 5 6[unfolded and_then_def] try_catch_def)
  moreover have "sv = (ik * (bytes_to_bn h + x * bytes_to_bn privkey)) mod Curve_N"
    by (simp add: sv_def sm_def p1_def mod_simps)
  ultimately show ?thesis by (simp add: rb_def ik_def)
qed


lemma pubkeyOf_value:
  assumes "g_mul ec (bytes_to_bn privkey mod Curve_N) = Point qx qy"
  shows "pubkeyOf ec privkey = Inr (bn_hex_bytes qx, bn_hex_bytes qy)"
  by (simp add: pubkeyOf_def bn_umod_def assms Let_def point_bytes and_then_def)

lemma verify_value:
  assumes laws: "group_laws ec"
    and d: "0 < dv" "dv < Curve_N" "coprime dv Curve_N"
    and k: "0 < kv" "kv < Curve_N" "(kv * ik) mod Curve_N = 1"
    and q: "g_mul ec dv = Point qx qy" "0 \<le> qx" "qx < 2 ^ 256" "0 \<le> qy" "qy < 2 ^ 256"
      "curve_point ec qx qy = Point qx qy"
    and g: "g_mul ec kv = Point x y" "0 \<le> x" "x < 2 ^ 256"
    and hd: "hashImpl message = Inr h" and hne: "h \<noteq> []"
    and sv: "sv = (ik * (bytes_to_bn h + x * dv)) mod Curve_N"
    and cr: "coprime x Curve_N" and cs: "coprime sv Curve_N"
  shows "verify ec hashImpl message (bn_hex_bytes qx, bn_hex_bytes qy)
           (Secp256k1EcdsaSignature (bn_hex_bytes x @ bn_hex_bytes sv)) = Inr True"
proof -
  let ?h = "h"
  let ?sg = "Secp256k1EcdsaSignature (bn_hex_bytes x @ bn_hex_bytes sv)"
  define rb where "rb = bn_hex_bytes x"
  define sb where "sb = bn_hex_bytes sv"
  have svr: "0 \<le> sv" "sv < Curve_N" using mod_range by (simp_all add: sv)
  have rbv: "bytes_to_bn rb = x" "rb \<noteq> []" "length rb = 32"
    using bytes_to_bn_hex_bytes[OF g(2,3)] bn_hex_bytes_nonempty length_bn_hex_bytes
    by (simp_all add: rb_def)
  have sbv: "bytes_to_bn sb = sv" "sb \<noteq> []" "length sb = 32"
    using scalar_enc(1)[OF svr] bn_hex_bytes_nonempty length_bn_hex_bytes
    by (simp_all add: sb_def)
  have parts: "sig_r ?sg = rb" "sig_s ?sg = sb"
    using sig_of_parts[OF rbv(3) sbv(3)] by (simp_all add: rb_def sb_def)
  define si where "si = bn_invm sv Curve_N"
  have sir: "0 \<le> si" "si < Curve_N" using bn_invm_range by (simp_all add: si_def)
  have sinv: "(sv * si) mod Curve_N = 1"
    using bn_invm_inverse[OF svr(1) cs] by (simp add: si_def)
  have csi: "coprime si Curve_N" using inverse_coprime[OF sinv] .
  have 1: "modInvN sb = Inr (bn_hex_bytes si)"
    using svr by (simp add: modInvN_enc[OF sbv(2)] sbv(1) si_def)
  have sie: "bytes_to_bn (bn_hex_bytes si) = si" "toScalar (bn_hex_bytes si) = Some si"
    using scalar_enc[OF sir] by simp_all
  define u2 where "u2 = (x * si) mod Curve_N"
  have u2r: "0 \<le> u2" "u2 < Curve_N" using mod_range by (simp_all add: u2_def)
  have 2: "mulModN rb (bn_hex_bytes si) = Inr (bn_hex_bytes u2)"
    by (simp add: mulModN_enc[OF rbv(2) bn_hex_bytes_nonempty] rbv(1) sie(1) u2_def)
  have u2e: "toScalar (bn_hex_bytes u2) = Some u2" using scalar_enc(2)[OF u2r] .
  have qe: "bytes_to_bn (bn_hex_bytes qx) = qx" "bytes_to_bn (bn_hex_bytes qy) = qy"
    using bytes_to_bn_hex_bytes[OF q(2,3)] bytes_to_bn_hex_bytes[OF q(4,5)] by simp_all
  define m where "m = (dv * u2) mod Curve_N"
  have "coprime (dv * (x * si)) Curve_N" using d(3) cr csi by simp
  then have "coprime (dv * u2) Curve_N"
    unfolding u2_def using Curve_N_pos
    by (metis coprime_mod_left_iff coprime_mult_left_iff less_irrefl)
  then have mr: "0 < m" "m < Curve_N"
    using coprime_reduce(2,3)[of "dv * u2"] by (simp_all add: m_def)
  have pm: "point_mul ec (Point qx qy) u2 = g_mul ec m"
    using law_mul[OF laws _ d(2) u2r] d(1) q(1) by (simp add: m_def)
  obtain mx my where mp: "g_mul ec m = Point mx my"
    using law_affine[OF laws mr] by blast
  have 3: "ecMul ec (Coordinates (bn_hex_bytes qx) (bn_hex_bytes qy)) (bn_hex_bytes u2)
      = Inr (MulResult (bn_hex_bytes mx) (bn_hex_bytes my) (g_mul ec m))"
    by (simp add: ecMul_def try_rethrow Let_def qe q(6) u2e pm mp point_bytes and_then_def)
  define u1 where "u1 = (bytes_to_bn ?h * si) mod Curve_N"
  have u1r: "0 \<le> u1" "u1 < Curve_N" using mod_range by (simp_all add: u1_def)
  have 4: "mulModN ?h (bn_hex_bytes si) = Inr (bn_hex_bytes u1)"
    by (simp add: mulModN_enc[OF hne bn_hex_bytes_nonempty] sie(1) u1_def)
  have u1e: "toScalar (bn_hex_bytes u1) = Some u1" using scalar_enc(2)[OF u1r] .
  have "(m + u1) mod Curve_N = ((bytes_to_bn ?h + x * dv) * si) mod Curve_N"
    by (simp add: m_def u1_def u2_def mod_simps algebra_simps)
  also have "\<dots> = kv"
    using ecdsa_algebra[OF k(3) sinv sv] k(1,2) by simp
  finally have sum: "(m + u1) mod Curve_N = kv" .
  have pa: "point_add ec (g_mul ec m) (g_mul ec u1) = Point x y"
    using law_add[OF laws _ mr(2) u1r] mr(1) sum g(1) by simp
  have 5: "tweak ec (g_mul ec m) (bn_hex_bytes u1) = Inr (rb, bn_hex_bytes y)"
    by (simp add: tweak_def try_rethrow u1e Let_def pa point_bytes and_then_def rb_def)
  have rec: "recoveredPoint ec hashImpl message (bn_hex_bytes qx, bn_hex_bytes qy) ?sg
      = Inr (rb, bn_hex_bytes y)"
    unfolding recoveredPoint_def Let_def parts hd
    by (simp add: and_then_def 1 2 3 4 5)
  show ?thesis
    unfolding verify_def rec
    by (simp add: and_then_def try_catch_def Let_def parts verify_loop_refl)
qed

text \<open>
  C1, as amended: with a curve package that obeys the group laws, for every private key
  and nonce that are not 0 modulo the order (in particular every \<open>0 < k < Curve_N\<close>) and
  every hash provider that returns a digest that is not empty, \<^verbatim>\<open>signWithK\<close> returns a signature, the
  public key exists, and \<^verbatim>\<open>verify\<close> returns \<^verbatim>\<open>true\<close> on them provided the signature's \<open>s\<close>
  is not 0 and its \<open>r\<close> is not 0 modulo the order.
\<close>

theorem sign_verify_roundtrip:
  assumes laws: "group_laws ec"
    and k0: "bytes_to_bn k mod Curve_N \<noteq> 0"
    and d0: "bytes_to_bn privkey mod Curve_N \<noteq> 0"
    and hd: "hashImpl message = Inr h"
    and hne: "h \<noteq> []"
  shows "\<exists>sg pubkey.
           signWithK ec hashImpl message k privkey = Inr sg \<and>
           pubkeyOf ec privkey = Inr pubkey \<and>
           (bytes_to_bn (sig_r sg) mod Curve_N \<noteq> 0 \<and> bytes_to_bn (sig_s sg) \<noteq> 0 \<longrightarrow>
              verify ec hashImpl message pubkey sg = Inr True)"
proof -
  have ck: "coprime (bytes_to_bn k) Curve_N" using Curve_N_coprime[OF k0] .
  have cd: "coprime (bytes_to_bn privkey) Curve_N" using Curve_N_coprime[OF d0] .
  define kv where "kv = bytes_to_bn k mod Curve_N"
  define dv where "dv = bytes_to_bn privkey mod Curve_N"
  define ik where "ik = bn_invm kv Curve_N"
  have kne: "k \<noteq> []" and dne: "privkey \<noteq> []"
    using coprime_nonempty ck cd by auto
  have kr: "coprime kv Curve_N" "0 < kv" "kv < Curve_N"
    using coprime_reduce[OF ck] by (simp_all add: kv_def)
  have dr: "coprime dv Curve_N" "0 < dv" "dv < Curve_N"
    using coprime_reduce[OF cd] by (simp_all add: dv_def)
  have kinv: "(kv * ik) mod Curve_N = 1"
    using bn_invm_inverse[of kv] kr by (simp add: ik_def)
  obtain x y where g: "g_mul ec kv = Point x y" "0 \<le> x" "x < 2 ^ 256"
    using law_affine[OF laws kr(2,3)] by blast
  obtain qx qy where q: "g_mul ec dv = Point qx qy" "0 \<le> qx" "qx < 2 ^ 256" "0 \<le> qy"
      "qy < 2 ^ 256" "curve_point ec qx qy = Point qx qy"
    using law_affine[OF laws dr(2,3)] by blast
  define sv where "sv = (ik * (bytes_to_bn h + x * dv)) mod Curve_N"
  let ?sg = "Secp256k1EcdsaSignature (bn_hex_bytes x @ bn_hex_bytes sv)"
  have "(bytes_to_bn h + x * dv) mod Curve_N
      = (bytes_to_bn h + x * bytes_to_bn privkey) mod Curve_N"
    unfolding dv_def by (metis mod_add_right_eq mod_mult_right_eq)
  then have sv': "sv = (ik * (bytes_to_bn h + x * bytes_to_bn privkey)) mod Curve_N"
    unfolding sv_def by (metis mod_mult_right_eq)
  have s: "signWithK ec hashImpl message k privkey = Inr ?sg"
    using signWithK_value[where hashImpl=hashImpl and message=message, OF kne dne hd hne g[unfolded kv_def]]
    by (simp add: sv' ik_def kv_def)
  have p: "pubkeyOf ec privkey = Inr (bn_hex_bytes qx, bn_hex_bytes qy)"
    using pubkeyOf_value[OF q(1)[unfolded dv_def]] .
  have svr: "0 \<le> sv" "sv < Curve_N" using mod_range by (simp_all add: sv_def)
  have parts: "bytes_to_bn (sig_r ?sg) = x" "bytes_to_bn (sig_s ?sg) = sv"
    using sig_of_parts[OF length_bn_hex_bytes length_bn_hex_bytes, of x sv]
      bytes_to_bn_hex_bytes[OF g(2,3)] scalar_enc(1)[OF svr] by simp_all
  have "verify ec hashImpl message (bn_hex_bytes qx, bn_hex_bytes qy) ?sg = Inr True"
    if r0: "x mod Curve_N \<noteq> 0" and s0: "sv \<noteq> 0"
  proof -
    have cr: "coprime x Curve_N" using Curve_N_coprime[OF r0] .
    have "sv mod Curve_N = sv" using svr by simp
    then have "sv mod Curve_N \<noteq> 0" using s0 by simp
    then have cs: "coprime sv Curve_N" by (rule Curve_N_coprime)
    show ?thesis
      using verify_value[where hashImpl=hashImpl and message=message, OF laws dr(2,3,1) kr(2,3) kinv q g hd hne sv_def cr cs] .
  qed
  then show ?thesis
    using s p parts by simp
qed

theorem sign_verify_roundtrip_witness:
  "group_laws zn_group \<and>
   bytes_to_bn bytes_of_2 mod Curve_N = 2 \<and>
   bytes_to_bn bytes_of_1 mod Curve_N = 1 \<and>
   hash_zero [] = Inr (replicate 32 0) \<and>
   signWithK zn_group hash_zero [] bytes_of_2 bytes_of_1 = Inr sig_toy \<and>
   pubkeyOf zn_group bytes_of_1 = Inr (bytes_of_1, bytes_of_1) \<and>
   bytes_to_bn (sig_r sig_toy) mod Curve_N = 2 \<and>
   bytes_to_bn (sig_s sig_toy) = 1 \<and>
   verify zn_group hash_zero [] (bytes_of_1, bytes_of_1) sig_toy = Inr True"
proof -
  have m1: "bytes_to_bn bytes_of_1 mod Curve_N = 1" by code_simp
  have m2: "bytes_to_bn bytes_of_2 mod Curve_N = 2" by code_simp
  have k0: "bytes_to_bn bytes_of_2 mod Curve_N \<noteq> 0" by (simp add: m2)
  have d0: "bytes_to_bn bytes_of_1 mod Curve_N \<noteq> 0" by (simp add: m1)
  have h: "hash_zero [] = Inr (replicate 32 0)" by (simp add: hash_zero_def)
  have hn: "replicate 32 (0::byte) \<noteq> []" by simp
  have s: "signWithK zn_group hash_zero [] bytes_of_2 bytes_of_1 = Inr sig_toy"
    by code_simp
  have p: "pubkeyOf zn_group bytes_of_1 = Inr (bytes_of_1, bytes_of_1)"
    by code_simp
  have rm: "bytes_to_bn (sig_r sig_toy) mod Curve_N = 2" by code_simp
  have sm: "bytes_to_bn (sig_s sig_toy) = 1" by code_simp
  have "verify zn_group hash_zero [] (bytes_of_1, bytes_of_1) sig_toy = Inr True"
    using sign_verify_roundtrip[where hashImpl=hash_zero and message="[]",
        OF group_laws_zn k0 d0 h hn]
    by (simp add: s p rm sm)
  then show ?thesis using group_laws_zn m1 m2 h s p rm sm by simp
qed

text \<open>
  Without the condition on \<open>s\<close> the round trip fails. On secp256k1 with private key 1,
  nonce 1 and a hash provider whose digest is the order minus the x-coordinate of the
  generator, \<^verbatim>\<open>signWithK\<close> returns a signature with \<open>s = 0\<close>, which \<^verbatim>\<open>verify\<close> rejects.
\<close>

theorem sign_verify_zero_s_counterexample:
  "signWithK secp256k1 hash_N_minus_Gx [] bytes_of_1 bytes_of_1 = Inr sig_s_zero \<and>
   pubkeyOf secp256k1 bytes_of_1 = Inr (bytes_of_Gx, bytes_of_Gy) \<and>
   verify secp256k1 hash_N_minus_Gx [] (bytes_of_Gx, bytes_of_Gy) sig_s_zero
     = Inr False"
  by code_simp

subsection \<open>What signWithK returns on secp256k1\<close>

text \<open>
  When \<^verbatim>\<open>signWithK\<close> returns, the nonce, the private key and the digest are not empty and
  the multiple of the generator is an affine point. Its x-coordinate is a residue of the
  field prime, and \<open>r\<close> is that coordinate printed to 32 bytes as it is; \<open>s\<close> is
  \<open>k\<^sup>-\<^sup>1 * (digest + x * privkey)\<close> modulo the order.
\<close>

lemma secp256k1_p_pos: "0 < secp256k1_p"
  by (simp add: secp256k1_p_def)

lemma in_field_dbl: "in_field (ec_dbl pt)"
  using secp256k1_p_pos by (simp add: ec_dbl_def in_field_def Let_def split: point.splits)

lemma in_field_add: "in_field pt \<Longrightarrow> in_field q \<Longrightarrow> in_field (ec_add pt q)"
  using secp256k1_p_pos in_field_dbl[of pt]
  by (auto simp: ec_add_def in_field_def Let_def split: point.splits)

lemma in_field_mul:
  assumes "in_field pt"
  shows "in_field (ec_mul pt k)"
proof -
  have "ec_mul pt k = Infinity \<or> ec_mul pt k = ec_dbl (ec_mul pt (k div 2))
      \<or> ec_mul pt k = ec_add (ec_dbl (ec_mul pt (k div 2))) pt"
    by (subst ec_mul.simps, subst (2) ec_mul.simps, subst (3) ec_mul.simps) simp
  moreover have "in_field Infinity" by (simp add: in_field_def)
  ultimately show ?thesis
    using in_field_dbl in_field_add[OF in_field_dbl assms] by metis
qed

lemma in_field_g: "in_field secp256k1_g"
  by (simp add: in_field_def secp256k1_g_def secp256k1_p_def)

lemma signWithK_success:
  assumes "signWithK ec hashImpl message k privkey = Inr sg"
  shows "k \<noteq> [] \<and> privkey \<noteq> [] \<and> (\<exists>h. hashImpl message = Inr h \<and> h \<noteq> []) \<and>
         (\<exists>x y. g_mul ec (bytes_to_bn k mod Curve_N) = Point x y)"
proof -
  obtain h where hd: "hashImpl message = Inr h"
    using assms by (cases "hashImpl message") (simp_all add: signWithK_def and_then_def)
  have k: "k \<noteq> []"
    using assms
    by (auto simp: signWithK_def hd Let_def try_catch_def and_then_def mulG_def toScalar_def
        split: sum.splits)
  have g: "\<exists>x y. g_mul ec (bytes_to_bn k mod Curve_N) = Point x y"
  proof (cases "g_mul ec (bytes_to_bn k mod Curve_N)")
    case Infinity
    then have "mulG ec k = Inl TypeError"
      by (simp add: mulG_def toScalar_nonempty[OF k] pointXToBytes_def try_catch_def)
    then show ?thesis
      using assms by (simp add: signWithK_def hd Let_def try_catch_def and_then_def)
  next
    case (Point x y)
    then show ?thesis by simp
  qed
  then obtain x y where p: "g_mul ec (bytes_to_bn k mod Curve_N) = Point x y" by blast
  have m: "mulG ec k = Inr (bn_hex_bytes x)"
    by (simp add: mulG_def try_rethrow toScalar_nonempty[OF k] p point_bytes)
  have i: "modInvN k = Inr (bn_hex_bytes (bn_invm (bytes_to_bn k mod Curve_N) Curve_N))"
    using modInvN_enc[OF k] .
  have d: "privkey \<noteq> []"
  proof
    assume "privkey = []"
    then have "mulModN (bn_hex_bytes x) privkey = Inl TypeError"
      using mulModN_empty by simp
    then show False
      using assms by (simp add: signWithK_def hd Let_def try_catch_def and_then_def m i)
  qed
  have h: "h \<noteq> []"
  proof
    assume e: "h = []"
    have "addModN h b = Inl TypeError" for b
      using addModN_empty[of h b] e by simp
    then show False
      using assms
      by (simp add: signWithK_def hd Let_def try_catch_def and_then_def m i
          mulModN_enc[OF bn_hex_bytes_nonempty d])
  qed
  show ?thesis using k d h hd g by simp
qed

lemma signWithK_secp256k1_components:
  assumes "signWithK secp256k1 hashImpl message k privkey = Inr sg"
  shows "\<exists>h x y. hashImpl message = Inr h \<and>
           ec_mul secp256k1_g (bytes_to_bn k mod Curve_N) = Point x y \<and>
           signature sg = sig_r sg @ sig_s sg \<and>
           length (sig_r sg) = 32 \<and> length (sig_s sg) = 32 \<and>
           bytes_to_bn (sig_r sg) = x \<and>
           bytes_to_bn (sig_s sg) =
             (bn_invm (bytes_to_bn k mod Curve_N) Curve_N *
              (bytes_to_bn h + x * bytes_to_bn privkey)) mod Curve_N"
proof -
  from signWithK_success[OF assms] obtain h x y where
    ne: "k \<noteq> []" "privkey \<noteq> []" and hd: "hashImpl message = Inr h" and hne: "h \<noteq> []"
    and p: "g_mul secp256k1 (bytes_to_bn k mod Curve_N) = Point x y"
    by blast
  have e: "ec_mul secp256k1_g (bytes_to_bn k mod Curve_N) = Point x y"
    using p by (simp add: secp256k1_def)
  have "in_field (Point x y)"
    using in_field_mul[OF in_field_g, of "bytes_to_bn k mod Curve_N"] e by simp
  then have x: "0 \<le> x" "x < 2 ^ 256"
    by (simp_all add: in_field_def secp256k1_p_def)
  define sv where "sv = (bn_invm (bytes_to_bn k mod Curve_N) Curve_N *
              (bytes_to_bn h + x * bytes_to_bn privkey)) mod Curve_N"
  have svr: "0 \<le> sv" "sv < Curve_N" using mod_range by (simp_all add: sv_def)
  have "sg = Secp256k1EcdsaSignature (bn_hex_bytes x @ bn_hex_bytes sv)"
    using signWithK_value[where hashImpl=hashImpl and message=message, OF ne hd hne p x] assms
    by (simp add: sv_def)
  then show ?thesis
    using sig_of_parts[OF length_bn_hex_bytes length_bn_hex_bytes, of x sv]
      bytes_to_bn_hex_bytes[OF x] scalar_enc(1)[OF svr] e hd length_bn_hex_bytes
    by (simp add: sv_def)
qed

section \<open>Verification\<close>

text \<open>
  The loop of \<^verbatim>\<open>verify\<close> over the 32 indices of two 32-byte buffers returns \<^verbatim>\<open>true\<close> exactly
  when the buffers are equal.
\<close>

lemma verify_loop_eq:
  assumes "length rDigest = 32" "length pointX = 32"
  shows "verify_loop rDigest pointX 0 32 \<longleftrightarrow> rDigest = pointX"
proof -
  have "(\<forall>j<32. byte_at rDigest j = byte_at pointX j) \<longleftrightarrow> (\<forall>j<32. rDigest ! j = pointX ! j)"
    using assms by (simp add: byte_at_def)
  then show ?thesis
    using assms verify_loop_iff[of rDigest pointX 0 32] by (simp add: list_eq_iff_nth_eq)
qed

lemma verify_cases:
  "verify ec hashImpl message pubkey this =
     (case recoveredPoint ec hashImpl message pubkey this of
        Inl error \<Rightarrow> Inr False
      | Inr recovered \<Rightarrow> Inr (verify_loop (sig_r this) (fst recovered) 0 32))"
  by (simp add: verify_def try_catch_def and_then_def Let_def split: sum.splits)

lemma recoveredPoint_throws:
  "hashImpl message = Inl error \<Longrightarrow> recoveredPoint ec hashImpl message pubkey this = Inl error"
  by (simp add: recoveredPoint_def and_then_def)

lemma point_bytes_infinity: "pointXToBytes Infinity = Inl TypeError"
  by (simp add: pointXToBytes_def try_catch_def)

text \<open>
  The body of \<^verbatim>\<open>verify\<close> before the comparison, for a signature of 64 bytes and a hash
  provider that returns: it fails when the multiple of the public key is the point at
  infinity, when the digest is empty, and when the sum is the point at infinity.
\<close>

lemma recoveredPoint_value:
  assumes len: "length (signature this) = 64" and hd: "hashImpl message = Inr h"
    and s1: "s1 = bn_invm (bytes_to_bn (sig_s this) mod Curve_N) Curve_N"
    and u1: "u1 = (bytes_to_bn h * s1) mod Curve_N"
    and u2: "u2 = (bytes_to_bn (sig_r this) * s1) mod Curve_N"
  shows "recoveredPoint ec hashImpl message (px, py) this =
     (case point_mul ec (curve_point ec (bytes_to_bn px) (bytes_to_bn py)) u2 of
        Infinity \<Rightarrow> Inl TypeError
      | Point qx qy \<Rightarrow>
          if h = [] then Inl TypeError
          else (case point_add ec (Point qx qy) (g_mul ec u1) of
                  Infinity \<Rightarrow> Inl TypeError
                | Point x y \<Rightarrow> Inr (bn_hex_bytes x, bn_hex_bytes y)))"
proof -
  define rb where "rb = sig_r this"
  define sb where "sb = sig_s this"
  have ne: "rb \<noteq> []" "sb \<noteq> []"
    using sig_parts(1,2)[OF len] by (auto simp: rb_def sb_def)
  have s1r: "0 \<le> s1" "s1 < Curve_N" using bn_invm_range by (simp_all add: s1)
  have s1e: "bytes_to_bn (bn_hex_bytes s1) = s1" using scalar_enc(1)[OF s1r] .
  have 1: "modInvN sb = Inr (bn_hex_bytes s1)"
    using modInvN_enc[OF ne(2)] by (simp add: s1 sb_def)
  have 2: "mulModN rb (bn_hex_bytes s1) = Inr (bn_hex_bytes u2)"
    using mulModN_enc[OF ne(1) bn_hex_bytes_nonempty, of s1] by (simp add: s1e u2 rb_def)
  have u2r: "0 \<le> u2" "u2 < Curve_N" using mod_range by (simp_all add: u2)
  have u2e: "toScalar (bn_hex_bytes u2) = Some u2" using scalar_enc(2)[OF u2r] .
  have u1r: "0 \<le> u1" "u1 < Curve_N" using mod_range by (simp_all add: u1)
  have u1e: "toScalar (bn_hex_bytes u1) = Some u1" using scalar_enc(2)[OF u1r] .
  define pk where "pk = point_mul ec (curve_point ec (bytes_to_bn px) (bytes_to_bn py)) u2"
  have 3: "ecMul ec (Coordinates px py) (bn_hex_bytes u2) =
      (case pk of
         Infinity \<Rightarrow> Inl TypeError
       | Point qx qy \<Rightarrow> Inr (MulResult (bn_hex_bytes qx) (bn_hex_bytes qy) pk))"
    by (simp add: ecMul_def try_rethrow Let_def u2e pk_def[symmetric] point_bytes
        point_bytes_infinity and_then_def split: point.splits)
  have 4: "mulModN h (bn_hex_bytes s1) =
      (if h = [] then Inl TypeError else Inr (bn_hex_bytes u1))"
  proof (cases "h = []")
    case True
    then show ?thesis using mulModN_empty[of h "bn_hex_bytes s1"] by simp
  next
    case False
    then show ?thesis
      using mulModN_enc[OF False bn_hex_bytes_nonempty, of s1] by (simp add: s1e u1)
  qed
  have 5: "tweak ec result (bn_hex_bytes u1) =
      (case point_add ec result (g_mul ec u1) of
         Infinity \<Rightarrow> Inl TypeError
       | Point x y \<Rightarrow> Inr (bn_hex_bytes x, bn_hex_bytes y))" for result
    by (simp add: tweak_def try_rethrow Let_def u1e point_bytes point_bytes_infinity
        and_then_def split: point.splits)
  have "recoveredPoint ec hashImpl message (px, py) this =
      and_then (ecMul ec (Coordinates px py) (bn_hex_bytes u2)) (\<lambda>pnt.
      and_then (mulModN h (bn_hex_bytes s1)) (\<lambda>hMulS1.
      tweak ec (product pnt) hMulS1))"
    using 1 2 by (simp add: recoveredPoint_def hd and_then_def rb_def sb_def)
  then show ?thesis
    unfolding 3 4 by (simp add: and_then_def 5 pk_def[symmetric] split: point.splits)
qed

text \<open>
  C2, as amended: for every signature, hash provider, message and public key, \<^verbatim>\<open>verify\<close>
  returns a boolean and never throws. It returns \<^verbatim>\<open>false\<close> when the hash provider throws.
  For a signature of 64 bytes it returns \<^verbatim>\<open>true\<close> exactly when the hash provider returns a
  digest \<open>h\<close> that is not empty, the point \<open>u2 * P + u1 * G\<close> exists, with \<open>P\<close> the point
  built from the coordinates of the public key, \<open>u1 = h * s\<^sup>-\<^sup>1\<close> and \<open>u2 = r * s\<^sup>-\<^sup>1\<close> modulo
  the order (neither \<open>u2 * P\<close> nor the sum is the point at infinity), and the 32 bytes of
  \<open>r\<close> are the x-coordinate of that point as \<^verbatim>\<open>bnToBytes\<close> prints it. On secp256k1 a
  signature whose \<open>s\<close> or \<open>r\<close> is 0 modulo the order makes it return \<^verbatim>\<open>false\<close>: the inverse
  of 0 is computed as 0, and the multiple by 0 is the point at infinity, whose
  coordinate cannot be read. The coordinates of the public key are not checked against
  the curve equation, so an invalid public key is not a failure.
\<close>

theorem verify_never_throws:
  "(\<exists>b. verify ec hashImpl message (px, py) this = Inr b) \<and>
   ((\<exists>error. hashImpl message = Inl error) \<longrightarrow>
      verify ec hashImpl message (px, py) this = Inr False) \<and>
   (length (signature this) = 64 \<longrightarrow>
      (verify ec hashImpl message (px, py) this = Inr True \<longleftrightarrow>
         (\<exists>h qx qy x y.
            hashImpl message = Inr h \<and> h \<noteq> [] \<and>
            (let s1 = bn_invm (bytes_to_bn (sig_s this) mod Curve_N) Curve_N;
                 u1 = (bytes_to_bn h * s1) mod Curve_N;
                 u2 = (bytes_to_bn (sig_r this) * s1) mod Curve_N
             in point_mul ec (curve_point ec (bytes_to_bn px) (bytes_to_bn py)) u2 = Point qx qy \<and>
                point_add ec (Point qx qy) (g_mul ec u1) = Point x y) \<and>
            sig_r this = bn_hex_bytes x))) \<and>
   (length (signature this) = 64 \<and>
      (bytes_to_bn (sig_s this) mod Curve_N = 0 \<or> bytes_to_bn (sig_r this) mod Curve_N = 0) \<longrightarrow>
      verify secp256k1 hashImpl message (px, py) this = Inr False)"
proof (intro conjI impI)
  show "\<exists>b. verify ec hashImpl message (px, py) this = Inr b"
  proof (cases "recoveredPoint ec hashImpl message (px, py) this")
    case (Inl error)
    then have "verify ec hashImpl message (px, py) this = Inr False"
      by (simp add: verify_cases)
    then show ?thesis by blast
  next
    case (Inr recovered)
    then have "verify ec hashImpl message (px, py) this =
        Inr (verify_loop (sig_r this) (fst recovered) 0 32)"
      by (simp add: verify_cases)
    then show ?thesis by blast
  qed
next
  assume "\<exists>error. hashImpl message = Inl error"
  then show "verify ec hashImpl message (px, py) this = Inr False"
    using recoveredPoint_throws[where hashImpl=hashImpl and message=message and ec=ec
        and pubkey="(px, py)" and this=this]
    by (auto simp: verify_cases)
next
  assume len: "length (signature this) = 64"
  define s1 where "s1 = bn_invm (bytes_to_bn (sig_s this) mod Curve_N) Curve_N"
  define u2 where "u2 = (bytes_to_bn (sig_r this) * s1) mod Curve_N"
  define pk where "pk = point_mul ec (curve_point ec (bytes_to_bn px) (bytes_to_bn py)) u2"
  have rl: "length (sig_r this) = 32" using sig_parts(1)[OF len] .
  show "verify ec hashImpl message (px, py) this = Inr True \<longleftrightarrow>
         (\<exists>h qx qy x y.
            hashImpl message = Inr h \<and> h \<noteq> [] \<and>
            (let s1 = bn_invm (bytes_to_bn (sig_s this) mod Curve_N) Curve_N;
                 u1 = (bytes_to_bn h * s1) mod Curve_N;
                 u2 = (bytes_to_bn (sig_r this) * s1) mod Curve_N
             in point_mul ec (curve_point ec (bytes_to_bn px) (bytes_to_bn py)) u2 = Point qx qy \<and>
                point_add ec (Point qx qy) (g_mul ec u1) = Point x y) \<and>
            sig_r this = bn_hex_bytes x)"
  proof (cases "hashImpl message")
    case (Inl error)
    then show ?thesis
      using recoveredPoint_throws[where hashImpl=hashImpl and message=message and ec=ec
          and pubkey="(px, py)" and this=this, OF Inl]
      by (simp add: verify_cases)
  next
    case (Inr h)
    define u1 where "u1 = (bytes_to_bn h * s1) mod Curve_N"
    define sm where "sm = point_add ec pk (g_mul ec u1)"
    have rp: "recoveredPoint ec hashImpl message (px, py) this =
        (case pk of
           Infinity \<Rightarrow> Inl TypeError
         | Point qx qy \<Rightarrow>
             if h = [] then Inl TypeError
             else (case point_add ec (Point qx qy) (g_mul ec u1) of
                     Infinity \<Rightarrow> Inl TypeError
                   | Point x y \<Rightarrow> Inr (bn_hex_bytes x, bn_hex_bytes y)))"
      using recoveredPoint_value[where hashImpl=hashImpl and message=message and ec=ec
          and px=px and py=py, OF len Inr s1_def u1_def u2_def]
      by (simp add: pk_def)
    have lhs: "verify ec hashImpl message (px, py) this = Inr True \<longleftrightarrow>
        h \<noteq> [] \<and> (\<exists>qx qy x y. pk = Point qx qy \<and>
           point_add ec (Point qx qy) (g_mul ec u1) = Point x y \<and> sig_r this = bn_hex_bytes x)"
      using verify_loop_eq[OF rl length_bn_hex_bytes]
      by (auto simp: verify_cases rp split: point.splits)
    show ?thesis
      unfolding lhs by (auto simp: Inr Let_def s1_def u1_def u2_def pk_def)
  qed
next
  assume a: "length (signature this) = 64 \<and>
      (bytes_to_bn (sig_s this) mod Curve_N = 0 \<or> bytes_to_bn (sig_r this) mod Curve_N = 0)"
  then have len: "length (signature this) = 64" by simp
  define s1 where "s1 = bn_invm (bytes_to_bn (sig_s this) mod Curve_N) Curve_N"
  define u2 where "u2 = (bytes_to_bn (sig_r this) * s1) mod Curve_N"
  have "u2 = 0"
  proof (cases "bytes_to_bn (sig_s this) mod Curve_N = 0")
    case True
    then have "s1 = 0" by (simp add: s1_def bn_invm_0)
    then show ?thesis by (simp add: u2_def)
  next
    case False
    then have "bytes_to_bn (sig_r this) mod Curve_N = 0" using a by simp
    then have "((bytes_to_bn (sig_r this) mod Curve_N) * s1) mod Curve_N = 0" by simp
    then show ?thesis unfolding u2_def by (simp only: mod_mult_left_eq)
  qed
  then have inf: "point_mul secp256k1 pnt u2 = Infinity" for pnt
    by (simp add: secp256k1_def ec_mul_0)
  show "verify secp256k1 hashImpl message (px, py) this = Inr False"
  proof (cases "hashImpl message")
    case (Inl error)
    then show ?thesis
      using recoveredPoint_throws[where hashImpl=hashImpl and message=message and ec=secp256k1
          and pubkey="(px, py)" and this=this, OF Inl]
      by (simp add: verify_cases)
  next
    case (Inr h)
    have "recoveredPoint secp256k1 hashImpl message (px, py) this = Inl TypeError"
      using recoveredPoint_value[where hashImpl=hashImpl and message=message and ec=secp256k1
          and px=px and py=py, OF len Inr s1_def refl u2_def]
      by (simp add: inf)
    then show ?thesis by (simp add: verify_cases)
  qed
qed

text \<open>
  On secp256k1 itself: signing the digest \<open>x(2G)\<close> with nonce 2 and private key 1 gives
  \<open>r = s = x(2G)\<close>.
\<close>

lemma secp256k1_sign_example:
  "signWithK secp256k1 hash_x2G [] bytes_of_2 bytes_of_1 = Inr sig_2G"
  by code_simp

text \<open>
  For that signature, the digest \<open>x(2G)\<close> and the public key \<open>G\<close>, a point of the curve, both \<open>u1\<close> and \<open>u2\<close>
  are 1 and the recomputed point is \<open>2G\<close>: \<^verbatim>\<open>verify\<close> returns \<^verbatim>\<open>true\<close>. With a hash provider
  that throws, and for a signature with \<open>s = 0\<close>, it returns \<^verbatim>\<open>false\<close>.
\<close>

theorem verify_never_throws_witness:
  "validate (curve_point secp256k1 (bytes_to_bn bytes_of_Gx) (bytes_to_bn bytes_of_Gy)) \<and>
   length (signature sig_2G) = 64 \<and>
   hash_x2G [] = Inr bytes_of_x2G \<and>
   verify secp256k1 hash_x2G [] (bytes_of_Gx, bytes_of_Gy) sig_2G = Inr True \<and>
   hash_throws [] = Inl (Error ''hash'') \<and>
   verify secp256k1 hash_throws [] (bytes_of_Gx, bytes_of_Gy) sig_2G = Inr False \<and>
   length (signature sig_s_zero) = 64 \<and>
   bytes_to_bn (sig_s sig_s_zero) mod Curve_N = 0 \<and>
   verify secp256k1 hash_x2G [] (bytes_of_Gx, bytes_of_Gy) sig_s_zero = Inr False"
proof -
  have v: "validate (curve_point secp256k1 (bytes_to_bn bytes_of_Gx) (bytes_to_bn bytes_of_Gy))"
    by code_simp
  have len: "length (signature sig_2G) = 64" by code_simp
  have h: "hash_x2G [] = Inr bytes_of_x2G" by (simp add: hash_x2G_def)
  have hn: "bytes_of_x2G \<noteq> []" by (simp add: bytes_of_x2G_def)
  have pts:
    "(let s1 = bn_invm (bytes_to_bn (sig_s sig_2G) mod Curve_N) Curve_N;
          u1 = (bytes_to_bn bytes_of_x2G * s1) mod Curve_N;
          u2 = (bytes_to_bn (sig_r sig_2G) * s1) mod Curve_N
      in point_mul secp256k1
           (curve_point secp256k1 (bytes_to_bn bytes_of_Gx) (bytes_to_bn bytes_of_Gy)) u2
           = Point 0x79BE667EF9DCBBAC55A06295CE870B07029BFCDB2DCE28D959F2815B16F81798
                   0x483ADA7726A3C4655DA4FBFC0E1108A8FD17B448A68554199C47D08FFB10D4B8 \<and>
         point_add secp256k1
           (Point 0x79BE667EF9DCBBAC55A06295CE870B07029BFCDB2DCE28D959F2815B16F81798
                  0x483ADA7726A3C4655DA4FBFC0E1108A8FD17B448A68554199C47D08FFB10D4B8)
           (g_mul secp256k1 u1)
           = Point 0xC6047F9441ED7D6D3045406E95C07CD85C778E4B8CEF3CA7ABAC09B95C709EE5
                   0x1AE168FEA63DC339A3C58419466CEAEEF7F632653266D0E1236431A950CFE52A)"
    by code_simp
  have r: "sig_r sig_2G = bn_hex_bytes 0xC6047F9441ED7D6D3045406E95C07CD85C778E4B8CEF3CA7ABAC09B95C709EE5"
    by code_simp
  note valid = verify_never_throws[of secp256k1 hash_x2G "[]" bytes_of_Gx bytes_of_Gy sig_2G,
      THEN conjunct2, THEN conjunct2, THEN conjunct1, rule_format, OF len]
  have 1: "verify secp256k1 hash_x2G [] (bytes_of_Gx, bytes_of_Gy) sig_2G = Inr True"
    by (rule iffD2[OF valid]) (intro exI conjI, rule h, rule hn, rule pts, rule r)
  have t: "hash_throws [] = Inl (Error ''hash'')" by (simp add: hash_throws_def)
  then have te: "\<exists>error. hash_throws [] = Inl error" by blast
  have 2: "verify secp256k1 hash_throws [] (bytes_of_Gx, bytes_of_Gy) sig_2G = Inr False"
    using verify_never_throws[of secp256k1 hash_throws "[]" bytes_of_Gx bytes_of_Gy sig_2G,
        THEN conjunct2, THEN conjunct1, rule_format, OF te] .
  have len0: "length (signature sig_s_zero) = 64" by code_simp
  have z: "bytes_to_bn (sig_s sig_s_zero) mod Curve_N = 0" by code_simp
  have 3: "verify secp256k1 hash_x2G [] (bytes_of_Gx, bytes_of_Gy) sig_s_zero = Inr False"
    using verify_never_throws[of secp256k1 hash_x2G "[]" bytes_of_Gx bytes_of_Gy sig_s_zero,
        THEN conjunct2, THEN conjunct2, THEN conjunct2, rule_format, OF conjI[OF len0 disjI1[OF z]]] .
  show ?thesis
    using v len h 1 t 2 len0 z 3 by (intro conjI)
qed

text \<open>
  An invalid public key is not turned into \<^verbatim>\<open>false\<close>. The point \<open>(1, 0)\<close> does not satisfy
  the curve equation. With the x-coordinate of \<open>(1, 0) + G\<close> as \<open>r\<close>, as \<open>s\<close> and as digest,
  \<open>u1\<close> and \<open>u2\<close> are 1, the recomputed point is \<open>(1, 0) + G\<close>, and \<^verbatim>\<open>verify\<close> returns \<^verbatim>\<open>true\<close>
  for this public key.
\<close>

theorem verify_invalid_pubkey_counterexample:
  "\<not> validate (curve_point secp256k1 (bytes_to_bn bytes_of_1) (bytes_to_bn bytes_of_0)) \<and>
   new_Secp256k1EcdsaSignature (signature sig_x_sum) = Inr sig_x_sum \<and>
   verify secp256k1 hash_x_sum [] (bytes_of_1, bytes_of_0) sig_x_sum = Inr True"
  by code_simp

end
